theory Spec2Isabelle
  imports Main "HOL-Library.AList" "HOL-Library.While_Combinator" "HOL-Library.Char_ord"
    "HOL-Library.List_Lexorder" "HOL-Library.Product_Lexorder"
begin

section \<open>The graph store of \<^verbatim>\<open>grafo_enron.py\<close>\<close>

text \<open>
  Class \<^verbatim>\<open>GrafoEnron\<close> keeps two fields: \<^verbatim>\<open>grafo\<close>, a \<^verbatim>\<open>defaultdict(dict)\<close> from a
  sender to the dictionary of its recipients and their weights, and \<^verbatim>\<open>vertices\<close>, a set
  of addresses. Python dictionaries iterate in insertion order, so a dictionary is an
  association list here: lookup is \<open>map_of\<close>, the assignment \<^verbatim>\<open>d[k] = v\<close> is
  \<open>AList.update\<close> (it overwrites in place, or appends a new key at the end). Python
  integers are unbounded: \<open>int\<close>. Addresses are strings, compared as Python compares
  them (lexicographically, character by character).

  Python iterates a set in an order fixed by the hashes of its elements, which the
  program does not control. The model keeps the elements of \<^verbatim>\<open>vertices\<close> in a list
  without repetition; the theorems below use of that list only the set of its elements,
  so they hold for whatever order the iteration takes.
\<close>

type_synonym vertex = string

type_synonym pesos = "(vertex \<times> int) list"

record grafo_enron =
  grafo :: "(vertex \<times> pesos) list"
  vertices :: "vertex list"

text \<open>\<^verbatim>\<open>__init__\<close>: both fields empty.\<close>

definition init_grafo :: grafo_enron where
  "init_grafo = \<lparr>grafo = [], vertices = []\<rparr>"

text \<open>\<^verbatim>\<open>d.get(k, default)\<close>, and \<^verbatim>\<open>d[k]\<close> on a \<^verbatim>\<open>defaultdict\<close> when only read.\<close>

definition dict_get :: "('k \<times> 'v) list \<Rightarrow> 'k \<Rightarrow> 'v \<Rightarrow> 'v" where
  "dict_get d k dflt = (case map_of d k of None \<Rightarrow> dflt | Some v \<Rightarrow> v)"

text \<open>\<^verbatim>\<open>s.add(x)\<close> on a set kept as a list without repetition.\<close>

definition set_add :: "'a \<Rightarrow> 'a list \<Rightarrow> 'a list" where
  "set_add x xs = (if x \<in> set xs then xs else xs @ [x])"

text \<open>
  \<^verbatim>\<open>_adicionar_aresta(de, para)\<close> (the leading underscore is dropped: an Isabelle name
  cannot start with one). The access \<^verbatim>\<open>self.grafo[de]\<close> creates the entry of \<^verbatim>\<open>de\<close>
  when it is missing, before the entry of \<^verbatim>\<open>para\<close> is created by the last statement.
\<close>

definition adicionar_aresta :: "vertex \<Rightarrow> vertex \<Rightarrow> grafo_enron \<Rightarrow> grafo_enron" where
  "adicionar_aresta de para g =
    (if para = de then g
     else
       let vs = set_add para (set_add de (vertices g));
           saida = dict_get (grafo g) de [];
           saida' = (case map_of saida para of
                       Some p \<Rightarrow> AList.update para (p + 1) saida
                     | None \<Rightarrow> AList.update para 1 saida);
           gr = AList.update de saida' (grafo g);
           gr' = (case map_of gr para of
                    None \<Rightarrow> AList.update para [] gr
                  | Some _ \<Rightarrow> gr)
       in g\<lparr>grafo := gr', vertices := vs\<rparr>)"

text \<open>
  The insertions of \<^verbatim>\<open>processar_emails\<close>: one call of \<^verbatim>\<open>_adicionar_aresta\<close> for each
  (sender, recipient) pair, in order.
\<close>

definition inserir_arestas :: "(vertex \<times> vertex) list \<Rightarrow> grafo_enron \<Rightarrow> grafo_enron" where
  "inserir_arestas es g = fold (\<lambda>(de, para). adicionar_aresta de para) es g"

text \<open>
  The edges in the order \<^verbatim>\<open>salvar_lista_adjacencias\<close> visits them: for each sender, each
  recipient with its weight.
\<close>

definition arestas :: "grafo_enron \<Rightarrow> (vertex \<times> vertex \<times> int) list" where
  "arestas g = concat (map (\<lambda>(de, ps). map (\<lambda>(para, peso). (de, para, peso)) ps) (grafo g))"

section \<open>Degree rankings\<close>


text \<open>
  The list \<^verbatim>\<open>graus\<close> of \<^verbatim>\<open>top_20_grau_saida\<close>:
  \<^verbatim>\<open>[(sum(self.grafo[v].values()), v) for v in self.grafo]\<close>.
\<close>

definition graus_saida :: "grafo_enron \<Rightarrow> (int \<times> vertex) list" where
  "graus_saida g = map (\<lambda>v. (sum_list (map snd (dict_get (grafo g) v [])), v)) (map fst (grafo g))"


text \<open>\<^verbatim>\<open>graus[destino] += peso\<close> on a \<^verbatim>\<open>defaultdict(int)\<close>.\<close>

definition incrementar :: "vertex \<Rightarrow> int \<Rightarrow> pesos \<Rightarrow> pesos" where
  "incrementar k n d = AList.update k (dict_get d k 0 + n) d"

text \<open>
  The dictionary \<^verbatim>\<open>graus\<close> of \<^verbatim>\<open>top_20_grau_entrada\<close> after its two nested loops; only
  a vertex that is the destination of some edge gets an entry. \<^verbatim>\<open>grafo_euleriano\<close>
  fills its \<^verbatim>\<open>grau_entrada\<close> by the same loops.
\<close>

definition graus_entrada :: "grafo_enron \<Rightarrow> pesos" where
  "graus_entrada g =
     fold (\<lambda>origem graus.
             fold (\<lambda>(destino, peso) graus. incrementar destino peso graus)
                  (dict_get (grafo g) origem []) graus)
          (map fst (grafo g)) []"


section \<open>Strong connectivity and the Eulerian check\<close>

text \<open>
  The local function \<^verbatim>\<open>bfs(grafo, inicio)\<close> of \<^verbatim>\<open>_eh_fortemente_conexo\<close>. The state of
  its loop is the set \<^verbatim>\<open>visitados\<close> (a list without repetition) and the deque \<^verbatim>\<open>fila\<close>;
  \<open>while_option\<close> gives \<open>None\<close> when the loop does not end.
\<close>

definition bfs_passo :: "(vertex \<times> pesos) list \<Rightarrow> vertex list \<times> vertex list \<Rightarrow> vertex list \<times> vertex list" where
  "bfs_passo gr s =
     (case s of (visitados, fila) \<Rightarrow>
        (case fila of
           [] \<Rightarrow> (visitados, fila)
         | atual # resto \<Rightarrow>
             if atual \<notin> set visitados
             then (set_add atual visitados, resto @ map fst (dict_get gr atual []))
             else (visitados, resto)))"

definition bfs :: "(vertex \<times> pesos) list \<Rightarrow> vertex \<Rightarrow> vertex list option" where
  "bfs gr inicio =
     map_option fst (while_option (\<lambda>(visitados, fila). fila \<noteq> []) (bfs_passo gr) ([], [inicio]))"

text \<open>
  The dictionary \<^verbatim>\<open>reverso\<close>: for each edge \<open>u \<rightarrow> v\<close> of weight \<open>p\<close>,
  \<^verbatim>\<open>reverso[v][u] = p\<close>, where \<^verbatim>\<open>reverso[v]\<close> is created empty when missing.
\<close>

definition reverso :: "(vertex \<times> pesos) list \<Rightarrow> (vertex \<times> pesos) list" where
  "reverso gr =
     fold (\<lambda>u r. fold (\<lambda>(v, p) r. AList.update v (AList.update u p (dict_get r v [])) r)
                       (dict_get gr u []) r)
          (map fst gr) []"

text \<open>
  \<^verbatim>\<open>_eh_fortemente_conexo\<close>. \<^verbatim>\<open>next(iter(self.vertices))\<close> is the first vertex of the
  iteration order; \<^verbatim>\<open>==\<close> on sets compares the elements.
\<close>

definition eh_fortemente_conexo :: "grafo_enron \<Rightarrow> bool option" where
  "eh_fortemente_conexo g =
     (case vertices g of
        [] \<Rightarrow> Some True
      | v0 # _ \<Rightarrow>
          (case bfs (grafo g) v0 of
             None \<Rightarrow> None
           | Some normal \<Rightarrow>
               (case bfs (reverso (grafo g)) v0 of
                  None \<Rightarrow> None
                | Some inverso \<Rightarrow>
                    Some (set normal = set (vertices g) \<and> set inverso = set (vertices g)))))"



section \<open>Shortest paths\<close>

text \<open>
  A failed dictionary read \<^verbatim>\<open>d[k]\<close> raises \<^verbatim>\<open>KeyError\<close>: the only exception the
  searches can raise.
\<close>

datatype erro = KeyError vertex

text \<open>
  The priority queue \<^verbatim>\<open>fila\<close> is a \<^verbatim>\<open>heapq\<close> heap of pairs (distance, vertex).
  \<^verbatim>\<open>heappop\<close> removes and returns the least entry in Python's tuple order, whatever the
  shape of the heap, and two entries that compare equal are the same pair; so the queue
  is kept here as the sorted list of its entries: \<^verbatim>\<open>heappush\<close> is \<open>insort\<close>,
  \<^verbatim>\<open>heappop\<close> splits off the head.
\<close>

type_synonym fila_prioridade = "(int \<times> vertex) list"

text \<open>The body of the \<^verbatim>\<open>for vizinho, peso\<close> loop of \<^verbatim>\<open>vertices_ate_distancia\<close>.\<close>

definition relaxar_limitado ::
  "int \<Rightarrow> int \<Rightarrow> vertex \<times> int \<Rightarrow> pesos \<times> fila_prioridade \<Rightarrow> pesos \<times> fila_prioridade" where
  "relaxar_limitado distancia_max dist e s =
     (case e of (vizinho, peso) \<Rightarrow>
      case s of (distancias, fila) \<Rightarrow>
        (let nova_dist = dist + peso in
         if nova_dist \<le> distancia_max
            \<and> (case map_of distancias vizinho of None \<Rightarrow> True | Some d \<Rightarrow> nova_dist < d)
         then (AList.update vizinho nova_dist distancias, insort (nova_dist, vizinho) fila)
         else (distancias, fila)))"

text \<open>
  One turn of the \<^verbatim>\<open>while fila\<close> loop of \<^verbatim>\<open>vertices_ate_distancia\<close>; the read
  \<^verbatim>\<open>distancias[atual]\<close> raises when \<^verbatim>\<open>atual\<close> has no entry.
\<close>

definition passo_limitado ::
  "grafo_enron \<Rightarrow> int \<Rightarrow> erro + pesos \<times> fila_prioridade \<Rightarrow> erro + pesos \<times> fila_prioridade" where
  "passo_limitado g distancia_max s =
     (case s of
        Inl e \<Rightarrow> Inl e
      | Inr (distancias, fila) \<Rightarrow>
          (case fila of
             [] \<Rightarrow> Inr (distancias, fila)
           | (dist, atual) # resto \<Rightarrow>
               (case map_of distancias atual of
                  None \<Rightarrow> Inl (KeyError atual)
                | Some d \<Rightarrow>
                    if dist > d then Inr (distancias, resto)
                    else Inr (fold (relaxar_limitado distancia_max dist)
                                   (dict_get (grafo g) atual []) (distancias, resto)))))"

definition fila_pendente :: "erro + pesos \<times> fila_prioridade \<Rightarrow> bool" where
  "fila_pendente s = (case s of Inl e \<Rightarrow> False | Inr (distancias, fila) \<Rightarrow> fila \<noteq> [])"

text \<open>
  \<^verbatim>\<open>vertices_ate_distancia(origem, distancia_max)\<close>: \<open>None\<close> when the loop does not end,
  \<open>Some (Inl e)\<close> when it raises, \<open>Some (Inr vs)\<close> when it returns the list \<open>vs\<close>.
\<close>

definition vertices_ate_distancia :: "grafo_enron \<Rightarrow> vertex \<Rightarrow> int \<Rightarrow> (erro + vertex list) option" where
  "vertices_ate_distancia g origem distancia_max =
     (case while_option fila_pendente (passo_limitado g distancia_max)
             (Inr ([(origem, 0)], [(0, origem)])) of
        None \<Rightarrow> None
      | Some (Inl e) \<Rightarrow> Some (Inl e)
      | Some (Inr (distancias, fila)) \<Rightarrow>
          Some (Inr (map fst (filter (\<lambda>(v, d). v \<noteq> origem \<and> d \<le> distancia_max) distancias))))"

type_synonym caminhos = "(vertex \<times> vertex list) list"

text \<open>
  The body of the \<^verbatim>\<open>for vizinho, peso\<close> loop of \<^verbatim>\<open>_dijkstra_com_caminhos\<close>; the read
  \<^verbatim>\<open>caminhos[atual]\<close> raises when \<^verbatim>\<open>atual\<close> has no entry.
\<close>

definition relaxar ::
  "int \<Rightarrow> vertex \<Rightarrow> vertex \<times> int \<Rightarrow> erro + pesos \<times> caminhos \<times> fila_prioridade
     \<Rightarrow> erro + pesos \<times> caminhos \<times> fila_prioridade" where
  "relaxar dist atual e s =
     (case e of (vizinho, peso) \<Rightarrow>
      case s of
        Inl err \<Rightarrow> Inl err
      | Inr (distancias, cams, fila) \<Rightarrow>
          (let nova_dist = dist + peso in
           if (case map_of distancias vizinho of None \<Rightarrow> True | Some d \<Rightarrow> nova_dist < d)
           then (case map_of cams atual of
                   None \<Rightarrow> Inl (KeyError atual)
                 | Some c \<Rightarrow>
                     Inr (AList.update vizinho nova_dist distancias,
                          AList.update vizinho (c @ [vizinho]) cams,
                          insort (nova_dist, vizinho) fila))
           else Inr (distancias, cams, fila)))"

definition passo_dijkstra ::
  "grafo_enron \<Rightarrow> erro + pesos \<times> caminhos \<times> fila_prioridade
     \<Rightarrow> erro + pesos \<times> caminhos \<times> fila_prioridade" where
  "passo_dijkstra g s =
     (case s of
        Inl e \<Rightarrow> Inl e
      | Inr (distancias, cams, fila) \<Rightarrow>
          (case fila of
             [] \<Rightarrow> Inr (distancias, cams, fila)
           | (dist, atual) # resto \<Rightarrow>
               fold (relaxar dist atual) (dict_get (grafo g) atual [])
                    (Inr (distancias, cams, resto))))"

definition fila_pendente_dijkstra :: "erro + pesos \<times> caminhos \<times> fila_prioridade \<Rightarrow> bool" where
  "fila_pendente_dijkstra s =
     (case s of Inl e \<Rightarrow> False | Inr (distancias, cams, fila) \<Rightarrow> fila \<noteq> [])"

text \<open>\<^verbatim>\<open>_dijkstra_com_caminhos(origem)\<close>, with the same three outcomes.\<close>

definition dijkstra_com_caminhos :: "grafo_enron \<Rightarrow> vertex \<Rightarrow> (erro + pesos \<times> caminhos) option" where
  "dijkstra_com_caminhos g origem =
     (case while_option fila_pendente_dijkstra (passo_dijkstra g)
             (Inr ([(origem, 0)], [(origem, [origem])], [(0, origem)])) of
        None \<Rightarrow> None
      | Some (Inl e) \<Rightarrow> Some (Inl e)
      | Some (Inr (distancias, cams, fila)) \<Rightarrow> Some (Inr (distancias, cams)))"

section \<open>Diameter\<close>

text \<open>
  The inner loop \<^verbatim>\<open>for destino in distancias\<close> of \<^verbatim>\<open>calcular_diametro\<close>, on the pair
  (\<^verbatim>\<open>maior_caminho\<close>, \<^verbatim>\<open>caminho_mais_longo\<close>).
\<close>

fun atualizar_maior :: "caminhos \<Rightarrow> pesos \<Rightarrow> int \<times> vertex list \<Rightarrow> erro + int \<times> vertex list" where
  "atualizar_maior cams [] acc = Inr acc"
| "atualizar_maior cams ((destino, d) # resto) (maior_caminho, caminho_mais_longo) =
     (if d > maior_caminho
      then (case map_of cams destino of
              None \<Rightarrow> Inl (KeyError destino)
            | Some c \<Rightarrow> atualizar_maior cams resto (d, c))
      else atualizar_maior cams resto (maior_caminho, caminho_mais_longo))"

text \<open>The outer loop \<^verbatim>\<open>for origem in self.vertices\<close>.\<close>

fun diametro_desde ::
  "grafo_enron \<Rightarrow> vertex list \<Rightarrow> int \<times> vertex list \<Rightarrow> (erro + int \<times> vertex list) option" where
  "diametro_desde g [] acc = Some (Inr acc)"
| "diametro_desde g (origem # resto) acc =
     (case dijkstra_com_caminhos g origem of
        None \<Rightarrow> None
      | Some (Inl e) \<Rightarrow> Some (Inl e)
      | Some (Inr (distancias, cams)) \<Rightarrow>
          (case atualizar_maior cams distancias acc of
             Inl e \<Rightarrow> Some (Inl e)
           | Inr acc' \<Rightarrow> diametro_desde g resto acc'))"

definition calcular_diametro :: "grafo_enron \<Rightarrow> (erro + int \<times> vertex list) option" where
  "calcular_diametro g = diametro_desde g (vertices g) (0, [])"

section \<open>Notions the properties are stated with\<close>

text \<open>
  What every graph built by \<^verbatim>\<open>_adicionar_aresta\<close> satisfies: the keys of each dictionary
  are distinct, every weight is positive, every destination has an adjacency entry, and
  the vertex set is the set of keys of \<^verbatim>\<open>grafo\<close>.
\<close>

definition grafo_ok :: "grafo_enron \<Rightarrow> bool" where
  "grafo_ok g \<longleftrightarrow>
     distinct (map fst (grafo g)) \<and> distinct (vertices g)
     \<and> set (vertices g) = set (map fst (grafo g))
     \<and> (\<forall>(u, ps) \<in> set (grafo g).
           distinct (map fst ps)
           \<and> (\<forall>(v, peso) \<in> set ps. 0 < peso \<and> v \<in> set (map fst (grafo g))))"

text \<open>The weight of the edge \<open>u \<rightarrow> v\<close>, if there is one.\<close>

definition peso_aresta :: "grafo_enron \<Rightarrow> vertex \<Rightarrow> vertex \<Rightarrow> int option" where
  "peso_aresta g u v = map_of (dict_get (grafo g) u []) v"

text \<open>
  A path is a non-empty list of vertices in which each vertex has an edge to the next;
  its weight is the sum of the weights of these edges.
\<close>

fun eh_caminho :: "grafo_enron \<Rightarrow> vertex list \<Rightarrow> bool" where
  "eh_caminho g [] = False"
| "eh_caminho g [v] = True"
| "eh_caminho g (u # v # p) = (peso_aresta g u v \<noteq> None \<and> eh_caminho g (v # p))"

fun peso_caminho :: "grafo_enron \<Rightarrow> vertex list \<Rightarrow> int" where
  "peso_caminho g [] = 0"
| "peso_caminho g [v] = 0"
| "peso_caminho g (u # v # p) =
     (case peso_aresta g u v of None \<Rightarrow> 0 | Some w \<Rightarrow> w) + peso_caminho g (v # p)"

definition caminho_entre :: "grafo_enron \<Rightarrow> vertex \<Rightarrow> vertex list \<Rightarrow> vertex \<Rightarrow> bool" where
  "caminho_entre g u p v \<longleftrightarrow> eh_caminho g p \<and> hd p = u \<and> last p = v"

text \<open>A shortest path from \<open>u\<close> to \<open>v\<close>: a path that no path from \<open>u\<close> to \<open>v\<close> undercuts.\<close>

definition caminho_minimo :: "grafo_enron \<Rightarrow> vertex \<Rightarrow> vertex list \<Rightarrow> vertex \<Rightarrow> bool" where
  "caminho_minimo g u p v \<longleftrightarrow>
     caminho_entre g u p v \<and> (\<forall>q. caminho_entre g u q v \<longrightarrow> peso_caminho g p \<le> peso_caminho g q)"

text \<open>Strong connectivity as the glossary of the specification words it.\<close>

definition fortemente_conexo :: "grafo_enron \<Rightarrow> bool" where
  "fortemente_conexo g \<longleftrightarrow>
     (\<forall>u \<in> set (vertices g). \<forall>v \<in> set (vertices g). \<exists>p. caminho_entre g u p v)"

text \<open>
  Weighted degrees as the specification words them: the out-degree of \<open>v\<close> is the sum
  of the weights of the edges leaving \<open>v\<close>, the in-degree the sum of the weights of the
  edges ending at \<open>v\<close>.
\<close>

definition out_degree :: "grafo_enron \<Rightarrow> vertex \<Rightarrow> int" where
  "out_degree g v = sum_list (map (\<lambda>(de, para, peso). peso) (filter (\<lambda>(de, para, peso). de = v) (arestas g)))"

definition in_degree :: "grafo_enron \<Rightarrow> vertex \<Rightarrow> int" where
  "in_degree g v = sum_list (map (\<lambda>(de, para, peso). peso) (filter (\<lambda>(de, para, peso). para = v) (arestas g)))"

text \<open>The sum of the weights of all edges.\<close>

definition peso_total :: "grafo_enron \<Rightarrow> int" where
  "peso_total g = sum_list (map (\<lambda>(de, para, peso). peso) (arestas g))"



text \<open>
  The edges a traversal follows in an adjacency dictionary: \<open>u\<close> leads to the keys of
  \<^verbatim>\<open>grafo.get(u, {})\<close>.
\<close>

definition arcos :: "(vertex \<times> pesos) list \<Rightarrow> (vertex \<times> vertex) set" where
  "arcos gr = {(u, w). w \<in> fst ` set (dict_get gr u [])}"

text \<open>The invariant of the loop of \<^verbatim>\<open>bfs\<close>, started at \<open>inicio\<close>.\<close>

definition bfs_inv :: "(vertex \<times> pesos) list \<Rightarrow> vertex \<Rightarrow> vertex list \<times> vertex list \<Rightarrow> bool" where
  "bfs_inv gr inicio s \<longleftrightarrow>
     (case s of (visitados, fila) \<Rightarrow>
        distinct visitados
        \<and> set visitados \<subseteq> (arcos gr)\<^sup>* `` {inicio}
        \<and> set fila \<subseteq> (arcos gr)\<^sup>* `` {inicio}
        \<and> inicio \<in> set visitados \<union> set fila
        \<and> (\<forall>u \<in> set visitados. \<forall>w. (u, w) \<in> arcos gr \<longrightarrow> w \<in> set visitados \<union> set fila))"

text \<open>
  The invariant of the loop of \<^verbatim>\<open>vertices_ate_distancia\<close>. A vertex with a recorded
  distance is settled for the bound when each of its edges that stays within the bound
  leads to a vertex whose recorded distance is no worse than going through it.
\<close>

definition concluido_limitado :: "grafo_enron \<Rightarrow> int \<Rightarrow> pesos \<Rightarrow> vertex \<Rightarrow> bool" where
  "concluido_limitado g B dist v \<longleftrightarrow>
     (\<forall>d w x. map_of dist v = Some d \<longrightarrow> peso_aresta g v w = Some x \<longrightarrow> d + x \<le> B
        \<longrightarrow> (\<exists>d'. map_of dist w = Some d' \<and> d' \<le> d + x))"

text \<open>
  Every recorded distance is the weight of a path from the origin and, away from the
  origin, within the bound; every queue entry is an upper bound of the recorded distance
  of its vertex; every vertex with a recorded distance has its current pair in the queue
  or is settled, the vertices of \<open>X\<close> (the one being expanded) excepted.
\<close>

definition inv_limitado ::
  "grafo_enron \<Rightarrow> vertex \<Rightarrow> int \<Rightarrow> vertex set \<Rightarrow> pesos \<times> fila_prioridade \<Rightarrow> bool" where
  "inv_limitado g origem B X s \<longleftrightarrow>
     (case s of (dist, fila) \<Rightarrow>
        distinct (map fst dist)
        \<and> map_of dist origem = Some 0
        \<and> fst ` set dist \<subseteq> insert origem (set (vertices g))
        \<and> (\<forall>v d. map_of dist v = Some d \<longrightarrow>
              (\<exists>c. caminho_entre g origem c v \<and> peso_caminho g c = d) \<and> (v \<noteq> origem \<longrightarrow> d \<le> B))
        \<and> (\<forall>(d, v) \<in> set fila. \<exists>d'. map_of dist v = Some d' \<and> d' \<le> d)
        \<and> (\<forall>v d. map_of dist v = Some d \<longrightarrow>
              v \<in> X \<or> (d, v) \<in> set fila \<or> concluido_limitado g B dist v))"

text \<open>
  What decreases at each turn of a search: the number of vertices without a recorded
  distance, then the sum of the recorded distances, then the length of the queue.
\<close>

definition medida_dist :: "grafo_enron \<Rightarrow> vertex \<Rightarrow> pesos \<Rightarrow> nat \<times> nat" where
  "medida_dist g origem dist =
     (card (insert origem (set (vertices g)) - fst ` set dist), nat (sum_list (map snd dist)))"

text \<open>The measure of a state of the loop of \<^verbatim>\<open>vertices_ate_distancia\<close>.\<close>

definition medida_limitado ::
  "grafo_enron \<Rightarrow> vertex \<Rightarrow> erro + pesos \<times> fila_prioridade \<Rightarrow> (nat \<times> nat) \<times> nat" where
  "medida_limitado g origem s =
     (case s of Inl e \<Rightarrow> ((0, 0), 0) | Inr (dist, fila) \<Rightarrow> (medida_dist g origem dist, length fila))"

text \<open>
  The invariant of the loop of \<^verbatim>\<open>_dijkstra_com_caminhos\<close>. A vertex with a recorded
  distance is settled when each of its edges leads to a vertex whose recorded distance
  is no worse than going through it.
\<close>

definition concluido :: "grafo_enron \<Rightarrow> pesos \<Rightarrow> vertex \<Rightarrow> bool" where
  "concluido g dist v \<longleftrightarrow>
     (\<forall>d w x. map_of dist v = Some d \<longrightarrow> peso_aresta g v w = Some x
        \<longrightarrow> (\<exists>d'. map_of dist w = Some d' \<and> d' \<le> d + x))"

text \<open>
  Every recorded distance is the weight of the recorded path, a path from the origin;
  every queue entry is an upper bound of the recorded distance of its vertex; the queue
  is in ascending order; every vertex with a recorded distance has its current pair in
  the queue or is settled, the vertices of \<open>X\<close> (the one being expanded) excepted.
\<close>

definition inv_dijkstra ::
  "grafo_enron \<Rightarrow> vertex \<Rightarrow> vertex set \<Rightarrow> pesos \<times> caminhos \<times> fila_prioridade \<Rightarrow> bool" where
  "inv_dijkstra g origem X s \<longleftrightarrow>
     (case s of (dist, cams, fila) \<Rightarrow>
        distinct (map fst dist)
        \<and> map_of dist origem = Some 0
        \<and> fst ` set dist \<subseteq> insert origem (set (vertices g))
        \<and> (\<forall>v d. map_of dist v = Some d \<longrightarrow>
              (\<exists>c. map_of cams v = Some c \<and> caminho_entre g origem c v \<and> peso_caminho g c = d))
        \<and> (\<forall>(d, v) \<in> set fila. \<exists>d'. map_of dist v = Some d' \<and> d' \<le> d)
        \<and> sorted fila
        \<and> (\<forall>v d. map_of dist v = Some d \<longrightarrow>
              v \<in> X \<or> (d, v) \<in> set fila \<or> concluido g dist v))"

text \<open>The measure of a state of the loop of \<^verbatim>\<open>_dijkstra_com_caminhos\<close>.\<close>

definition medida_dijkstra ::
  "grafo_enron \<Rightarrow> vertex \<Rightarrow> erro + pesos \<times> caminhos \<times> fila_prioridade \<Rightarrow> (nat \<times> nat) \<times> nat" where
  "medida_dijkstra g origem s =
     (case s of
        Inl e \<Rightarrow> ((0, 0), 0)
      | Inr (dist, cams, fila) \<Rightarrow> (medida_dist g origem dist, length fila))"

section \<open>Weight accumulation\<close>

lemma adicionar_aresta_primeira:
  "a \<noteq> b \<Longrightarrow> adicionar_aresta a b init_grafo = \<lparr>grafo = [(a, [(b, 1)]), (b, [])], vertices = [a, b]\<rparr>"
  by (simp add: adicionar_aresta_def init_grafo_def dict_get_def set_add_def Let_def)

lemma adicionar_aresta_repetida:
  "a \<noteq> b \<Longrightarrow>
   adicionar_aresta a b \<lparr>grafo = [(a, [(b, k)]), (b, [])], vertices = [a, b]\<rparr>
     = \<lparr>grafo = [(a, [(b, k + 1)]), (b, [])], vertices = [a, b]\<rparr>"
  by (simp add: adicionar_aresta_def dict_get_def set_add_def Let_def)

lemma adicionar_aresta_n_vezes:
  "a \<noteq> b \<Longrightarrow>
   ((adicionar_aresta a b) ^^ Suc n) init_grafo
     = \<lparr>grafo = [(a, [(b, int (Suc n))]), (b, [])], vertices = [a, b]\<rparr>"
proof (induction n)
  case 0
  then show ?case by (simp add: adicionar_aresta_primeira)
next
  case (Suc n)
  have "((adicionar_aresta a b) ^^ Suc (Suc n)) init_grafo
          = adicionar_aresta a b (((adicionar_aresta a b) ^^ Suc n) init_grafo)"
    by simp
  also have "\<dots> = adicionar_aresta a b \<lparr>grafo = [(a, [(b, int (Suc n))]), (b, [])], vertices = [a, b]\<rparr>"
    using Suc by simp
  also have "\<dots> = \<lparr>grafo = [(a, [(b, int (Suc n) + 1)]), (b, [])], vertices = [a, b]\<rparr>"
    using Suc.prems by (rule adicionar_aresta_repetida)
  finally show ?case by (simp add: add.commute)
qed

text \<open>
  C7. For distinct \<open>a\<close> and \<open>b\<close> and \<open>n \<ge> 1\<close>, calling \<^verbatim>\<open>_adicionar_aresta(a, b)\<close>
  \<open>n\<close> times on the empty graph gives a graph whose only edge is \<open>(a, b)\<close>, with weight
  exactly \<open>n\<close>: the adjacency holds \<open>a\<close> with the single recipient \<open>b\<close> at weight \<open>n\<close>
  and \<open>b\<close> with no recipient.
\<close>

theorem weight_accumulation:
  assumes "a \<noteq> b" and "1 \<le> n"
  shows "arestas (((adicionar_aresta a b) ^^ n) init_grafo) = [(a, b, int n)]
       \<and> grafo (((adicionar_aresta a b) ^^ n) init_grafo) = [(a, [(b, int n)]), (b, [])]
       \<and> vertices (((adicionar_aresta a b) ^^ n) init_grafo) = [a, b]"
proof -
  from \<open>1 \<le> n\<close> obtain m where n: "n = Suc m" by (cases n) auto
  show ?thesis
    unfolding n adicionar_aresta_n_vezes [OF \<open>a \<noteq> b\<close>] by (simp add: arestas_def)
qed

theorem weight_accumulation_witness:
  "''ann'' \<noteq> ''bob'' \<and> (1::nat) \<le> 3
   \<and> arestas (((adicionar_aresta ''ann'' ''bob'') ^^ 3) init_grafo) = [(''ann'', ''bob'', 3)]"
  using weight_accumulation [of "''ann''" "''bob''" 3] by simp

section \<open>Graphs built by insertion\<close>

lemma set_set_add: "set (set_add x xs) = insert x (set xs)"
  by (auto simp: set_add_def)

lemma distinct_set_add: "distinct xs \<Longrightarrow> distinct (set_add x xs)"
  by (simp add: set_add_def)

lemma ball_alist:
  "distinct (map fst xs) \<Longrightarrow> (\<forall>(k, v) \<in> set xs. P k v) \<longleftrightarrow> (\<forall>k v. map_of xs k = Some v \<longrightarrow> P k v)"
  by auto

lemma grafo_ok_map_of:
  "grafo_ok g \<longleftrightarrow>
     distinct (map fst (grafo g)) \<and> distinct (vertices g)
     \<and> set (vertices g) = dom (map_of (grafo g))
     \<and> (\<forall>u ps. map_of (grafo g) u = Some ps \<longrightarrow>
           distinct (map fst ps)
           \<and> (\<forall>v peso. map_of ps v = Some peso \<longrightarrow> 0 < peso \<and> v \<in> dom (map_of (grafo g))))"
proof -
  have keys: "set (map fst (grafo g)) = dom (map_of (grafo g))"
    by (simp add: dom_map_of_conv_image_fst)
  have inner: "(distinct (map fst ps) \<and> (\<forall>(v, peso) \<in> set ps. 0 < peso \<and> v \<in> D)) \<longleftrightarrow>
               (distinct (map fst ps) \<and> (\<forall>v peso. map_of ps v = Some peso \<longrightarrow> 0 < peso \<and> v \<in> D))"
    for ps :: pesos and D
    using ball_alist [of ps "\<lambda>v peso. 0 < peso \<and> v \<in> D"] by blast
  have outer: "(\<forall>(u, ps) \<in> set (grafo g). Q u ps) \<longleftrightarrow> (\<forall>u ps. map_of (grafo g) u = Some ps \<longrightarrow> Q u ps)"
    if "distinct (map fst (grafo g))" for Q
    using ball_alist [OF that, of Q] .
  show ?thesis
  proof (cases "distinct (map fst (grafo g))")
    case False
    then show ?thesis by (simp add: grafo_ok_def)
  next
    case True
    show ?thesis
      unfolding grafo_ok_def keys outer [OF True] inner ..
  qed
qed


lemma grafo_ok_init: "grafo_ok init_grafo"
  by (simp add: grafo_ok_def init_grafo_def)

lemma grafo_adicionar_aresta:
  assumes "para \<noteq> de"
  shows "map_of (grafo (adicionar_aresta de para g)) =
           (map_of (grafo g))
             (de \<mapsto> AList.update para (dict_get (dict_get (grafo g) de []) para 0 + 1)
                        (dict_get (grafo g) de []),
              para \<mapsto> dict_get (grafo g) para [])"
    and "distinct (map fst (grafo g)) \<Longrightarrow> distinct (map fst (grafo (adicionar_aresta de para g)))"
    and "vertices (adicionar_aresta de para g) = set_add para (set_add de (vertices g))"
  using assms
  by (auto simp: adicionar_aresta_def Let_def update_conv' dict_get_def distinct_update
           split: option.splits)

lemma grafo_ok_adicionar_aresta:
  assumes "grafo_ok g"
  shows "grafo_ok (adicionar_aresta de para g)"
proof (cases "para = de")
  case True
  then show ?thesis using assms by (simp add: adicionar_aresta_def)
next
  case False
  define saida where "saida = dict_get (grafo g) de []"
  define saida' where "saida' = AList.update para (dict_get saida para 0 + 1) saida"
  define g' where "g' = adicionar_aresta de para g"
  from assms have ok: "distinct (map fst (grafo g))" "distinct (vertices g)"
    "set (vertices g) = dom (map_of (grafo g))"
    "\<And>u ps. map_of (grafo g) u = Some ps \<Longrightarrow> distinct (map fst ps)"
    "\<And>u ps v peso. map_of (grafo g) u = Some ps \<Longrightarrow> map_of ps v = Some peso \<Longrightarrow> 0 < peso \<and> v \<in> dom (map_of (grafo g))"
    unfolding grafo_ok_map_of by blast+
  have m: "map_of (grafo g') = (map_of (grafo g))(de \<mapsto> saida', para \<mapsto> dict_get (grafo g) para [])"
    unfolding g'_def saida'_def saida_def by (rule grafo_adicionar_aresta(1) [OF False])
  have d: "distinct (map fst (grafo g'))"
    unfolding g'_def by (rule grafo_adicionar_aresta(2) [OF False ok(1)])
  have v: "vertices g' = set_add para (set_add de (vertices g))"
    unfolding g'_def by (rule grafo_adicionar_aresta(3) [OF False])
  have dom': "dom (map_of (grafo g')) = insert para (insert de (dom (map_of (grafo g))))"
    unfolding m by auto
  have saida_distinct: "distinct (map fst saida)"
  proof (cases "map_of (grafo g) de")
    case None
    then show ?thesis by (simp add: saida_def dict_get_def)
  next
    case (Some ps)
    then show ?thesis using ok(4) by (simp add: saida_def dict_get_def)
  qed
  have saida_ok: "0 < peso \<and> v \<in> dom (map_of (grafo g))" if "map_of saida v = Some peso" for v peso
  proof (cases "map_of (grafo g) de")
    case None
    then show ?thesis using that by (simp add: saida_def dict_get_def)
  next
    case (Some ps)
    then have "saida = ps" by (simp add: saida_def dict_get_def)
    then show ?thesis using ok(5) [OF Some] that by simp
  qed
  have saida'_distinct: "distinct (map fst saida')"
    unfolding saida'_def using saida_distinct by (rule distinct_update)
  have saida'_ok: "0 < peso \<and> v \<in> dom (map_of (grafo g'))" if "map_of saida' v = Some peso" for v peso
  proof (cases "v = para")
    case True
    with that have p: "peso = dict_get saida para 0 + 1"
      by (simp add: saida'_def update_conv')
    have "0 \<le> dict_get saida para 0"
    proof (cases "map_of saida para")
      case None
      then show ?thesis by (simp add: dict_get_def)
    next
      case (Some q)
      then show ?thesis using saida_ok [OF Some] by (simp add: dict_get_def)
    qed
    with p True show ?thesis by (simp add: dom')
  next
    case False
    with that have "map_of saida v = Some peso" by (simp add: saida'_def update_conv')
    from saida_ok [OF this] show ?thesis by (simp add: dom')
  qed
  have para_ok: "distinct (map fst ps) \<and> (\<forall>v peso. map_of ps v = Some peso \<longrightarrow> 0 < peso \<and> v \<in> dom (map_of (grafo g')))"
    if "ps = dict_get (grafo g) para []" for ps
  proof (cases "map_of (grafo g) para")
    case None
    then show ?thesis using that by (simp add: dict_get_def)
  next
    case (Some qs)
    then have "ps = qs" using that by (simp add: dict_get_def)
    then show ?thesis using ok(4) [OF Some] ok(5) [OF Some] by (simp add: dom')
  qed
  have inner: "distinct (map fst ps) \<and> (\<forall>v peso. map_of ps v = Some peso \<longrightarrow> 0 < peso \<and> v \<in> dom (map_of (grafo g')))"
    if "map_of (grafo g') u = Some ps" for u ps
  proof (cases "u = para")
    case True
    with that have "ps = dict_get (grafo g) para []" by (simp add: m)
    then show ?thesis by (rule para_ok)
  next
    case np: False
    show ?thesis
    proof (cases "u = de")
      case True
      with np that have "ps = saida'" by (simp add: m)
      then show ?thesis using saida'_distinct saida'_ok by blast
    next
      case False
      with np that have old: "map_of (grafo g) u = Some ps" by (simp add: m)
      show ?thesis using ok(4) [OF old] ok(5) [OF old] by (simp add: dom')
    qed
  qed
  have "grafo_ok g'"
    unfolding grafo_ok_map_of
    using d ok(2,3) inner by (simp add: v distinct_set_add set_set_add dom')
  then show ?thesis by (simp add: g'_def)
qed

lemma grafo_ok_inserir_arestas_aux: "grafo_ok g \<Longrightarrow> grafo_ok (inserir_arestas es g)"
  unfolding inserir_arestas_def
  by (induction es arbitrary: g) (auto simp: grafo_ok_adicionar_aresta)

lemma grafo_ok_inserir_arestas: "grafo_ok (inserir_arestas es init_grafo)"
  by (rule grafo_ok_inserir_arestas_aux [OF grafo_ok_init])

section \<open>The degree balance law\<close>


lemma dict_get_keys:
  "distinct (map fst xs) \<Longrightarrow> map (\<lambda>k. dict_get xs k d) (map fst xs) = map snd xs"
  by (auto simp: dict_get_def)

lemma sum_list_concat_int: "sum_list (concat xss) = sum_list (map sum_list xss)"
  for xss :: "int list list"
  by (induction xss) auto

lemma peso_total_grafo:
  "peso_total g = sum_list (map (\<lambda>(u, ps). sum_list (map snd ps)) (grafo g))"
proof -
  have "map (\<lambda>(de, para, peso). peso) (arestas g)
          = concat (map (\<lambda>(u, ps). map snd ps) (grafo g))"
    by (simp add: arestas_def map_concat comp_def case_prod_unfold)
  then show ?thesis
    by (simp add: peso_total_def sum_list_concat_int comp_def case_prod_unfold)
qed

lemma sum_list_delta0:
  "x \<notin> set vs \<Longrightarrow> (\<Sum>v\<leftarrow>vs. if x = v then (c::int) else 0) = 0"
  by (induction vs) auto

lemma sum_list_delta:
  "distinct vs \<Longrightarrow> x \<in> set vs \<Longrightarrow> (\<Sum>v\<leftarrow>vs. if x = v then (c::int) else 0) = c"
  by (induction vs) (auto simp: sum_list_delta0)

lemma sum_list_partition:
  fixes w :: "'e \<Rightarrow> int"
  assumes "distinct vs" and "\<forall>e \<in> set es. k e \<in> set vs"
  shows "(\<Sum>v\<leftarrow>vs. sum_list (map w (filter (\<lambda>e. k e = v) es))) = sum_list (map w es)"
  using assms(2)
proof (induction es)
  case Nil
  then show ?case by simp
next
  case (Cons e es)
  have "(\<Sum>v\<leftarrow>vs. sum_list (map w (filter (\<lambda>e. k e = v) (e # es))))
          = (\<Sum>v\<leftarrow>vs. (if k e = v then w e else 0) + sum_list (map w (filter (\<lambda>e. k e = v) es)))"
    by (rule arg_cong [where f = sum_list]) auto
  also have "\<dots> = (\<Sum>v\<leftarrow>vs. if k e = v then w e else 0)
                   + (\<Sum>v\<leftarrow>vs. sum_list (map w (filter (\<lambda>e. k e = v) es)))"
    by (simp add: sum_list_addf)
  also have "(\<Sum>v\<leftarrow>vs. if k e = v then w e else 0) = w e"
    using assms(1) Cons.prems by (simp add: sum_list_delta)
  finally show ?case using Cons by simp
qed

lemma arestas_in_grafo:
  "(de, para, peso) \<in> set (arestas g) \<longleftrightarrow> (\<exists>ps. (de, ps) \<in> set (grafo g) \<and> (para, peso) \<in> set ps)"
  by (auto simp: arestas_def)

lemma sum_out_degree:
  assumes "grafo_ok g"
  shows "(\<Sum>v\<leftarrow>vertices g. out_degree g v) = peso_total g"
proof -
  have "\<forall>e \<in> set (arestas g). fst e \<in> set (vertices g)"
    using assms by (force simp: grafo_ok_def arestas_in_grafo)
  moreover have "distinct (vertices g)" using assms by (simp add: grafo_ok_def)
  ultimately show ?thesis
    using sum_list_partition [of "vertices g" "arestas g" fst "\<lambda>(de, para, peso). peso"]
    by (simp add: out_degree_def peso_total_def case_prod_unfold)
qed

lemma sum_in_degree:
  assumes "grafo_ok g"
  shows "(\<Sum>v\<leftarrow>vertices g. in_degree g v) = peso_total g"
proof -
  have "\<forall>e \<in> set (arestas g). fst (snd e) \<in> set (vertices g)"
    using assms by (fastforce simp: grafo_ok_def arestas_in_grafo)
  moreover have "distinct (vertices g)" using assms by (simp add: grafo_ok_def)
  ultimately show ?thesis
    using sum_list_partition [of "vertices g" "arestas g" "\<lambda>e. fst (snd e)" "\<lambda>(de, para, peso). peso"]
    by (simp add: in_degree_def peso_total_def case_prod_unfold)
qed

lemma sum_graus_saida:
  assumes "distinct (map fst (grafo g))"
  shows "sum_list (map fst (graus_saida g)) = peso_total g"
proof -
  have "map fst (graus_saida g)
          = map (\<lambda>ps. sum_list (map snd ps)) (map (\<lambda>k. dict_get (grafo g) k []) (map fst (grafo g)))"
    by (simp add: graus_saida_def comp_def)
  also have "\<dots> = map (\<lambda>ps. sum_list (map snd ps)) (map snd (grafo g))"
    by (simp only: dict_get_keys [OF assms])
  finally show ?thesis
    by (simp add: peso_total_grafo comp_def case_prod_unfold)
qed

lemma sum_update:
  fixes f :: "'v \<Rightarrow> int"
  shows "sum_list (map (\<lambda>(k, v). f v) (AList.update k v al))
           = sum_list (map (\<lambda>(k, v). f v) al) - (case map_of al k of None \<Rightarrow> 0 | Some old \<Rightarrow> f old) + f v"
  by (induction al) auto

lemma sum_incrementar: "sum_list (map snd (incrementar k n d)) = sum_list (map snd d) + n"
  using sum_update [of "\<lambda>x. x" k "dict_get d k 0 + n" d]
  by (simp add: incrementar_def dict_get_def case_prod_unfold split: option.splits)

lemma sum_fold_incrementar:
  "sum_list (map snd (fold (\<lambda>(destino, peso) graus. incrementar destino peso graus) ps acc))
     = sum_list (map snd acc) + sum_list (map snd ps)"
  by (induction ps arbitrary: acc) (auto simp: sum_incrementar)

lemma graus_entrada_fold:
  assumes "distinct (map fst (grafo g))"
  shows "graus_entrada g =
           fold (\<lambda>ps graus. fold (\<lambda>(destino, peso) graus. incrementar destino peso graus) ps graus)
                (map snd (grafo g)) []"
proof -
  have "graus_entrada g =
          fold (\<lambda>ps graus. fold (\<lambda>(destino, peso) graus. incrementar destino peso graus) ps graus)
               (map (\<lambda>k. dict_get (grafo g) k []) (map fst (grafo g))) []"
    unfolding graus_entrada_def fold_map comp_def ..
  then show ?thesis by (simp only: dict_get_keys [OF assms])
qed

lemma sum_graus_entrada:
  assumes "distinct (map fst (grafo g))"
  shows "sum_list (map snd (graus_entrada g)) = peso_total g"
proof -
  have "sum_list (map snd (fold (\<lambda>ps graus. fold (\<lambda>(destino, peso) graus. incrementar destino peso graus) ps graus) pss acc))
          = sum_list (map snd acc) + sum_list (map (\<lambda>ps. sum_list (map snd ps)) pss)"
    for pss :: "pesos list" and acc
    by (induction pss arbitrary: acc) (auto simp: sum_fold_incrementar)
  then show ?thesis
    by (simp add: graus_entrada_fold [OF assms] peso_total_grafo comp_def case_prod_unfold)
qed

lemma peso_total_adicionar_aresta:
  assumes "para \<noteq> de"
  shows "peso_total (adicionar_aresta de para g) = peso_total g + 1"
proof -
  define f :: "pesos \<Rightarrow> int" where "f = (\<lambda>ps. sum_list (map snd ps))"
  define saida where "saida = dict_get (grafo g) de []"
  define saida' where "saida' = (case map_of saida para of
                       Some p \<Rightarrow> AList.update para (p + 1) saida
                     | None \<Rightarrow> AList.update para 1 saida)"
  define gr where "gr = AList.update de saida' (grafo g)"
  define gr' where "gr' = (case map_of gr para of None \<Rightarrow> AList.update para [] gr | Some _ \<Rightarrow> gr)"
  have g': "grafo (adicionar_aresta de para g) = gr'"
    unfolding adicionar_aresta_def Let_def saida_def saida'_def gr_def gr'_def using assms by simp
  have tot: "peso_total h = sum_list (map (\<lambda>(k, v). f v) (grafo h))" for h
    by (simp add: peso_total_grafo f_def)
  have "f saida' = f saida + 1"
    using sum_update [of "\<lambda>x. x" para _ saida]
    by (auto simp: f_def saida'_def case_prod_unfold split: option.splits)
  moreover have "f saida = (case map_of (grafo g) de of None \<Rightarrow> 0 | Some old \<Rightarrow> f old)"
    by (simp add: saida_def dict_get_def f_def split: option.splits)
  ultimately have "sum_list (map (\<lambda>(k, v). f v) gr) = sum_list (map (\<lambda>(k, v). f v) (grafo g)) + 1"
    unfolding gr_def sum_update by simp
  moreover have "sum_list (map (\<lambda>(k, v). f v) gr') = sum_list (map (\<lambda>(k, v). f v) gr)"
    unfolding gr'_def by (cases "map_of gr para") (simp_all add: sum_update f_def)
  ultimately show ?thesis by (simp add: tot g')
qed

lemma peso_total_inserir_arestas:
  "peso_total (inserir_arestas es g) = peso_total g + int (length (filter (\<lambda>(de, para). de \<noteq> para) es))"
proof (induction es arbitrary: g)
  case Nil
  then show ?case by (simp add: inserir_arestas_def)
next
  case (Cons e es)
  obtain de para where e: "e = (de, para)" by (cases e)
  have "inserir_arestas (e # es) g = inserir_arestas es (adicionar_aresta de para g)"
    by (simp add: inserir_arestas_def e)
  moreover have "peso_total (adicionar_aresta de para g) = peso_total g + (if de \<noteq> para then 1 else 0)"
    using peso_total_adicionar_aresta [of para de g] by (auto simp: adicionar_aresta_def)
  ultimately show ?case using Cons [of "adicionar_aresta de para g"] by (simp add: e)
qed

lemma peso_total_init: "peso_total init_grafo = 0"
  by (simp add: peso_total_def arestas_def init_grafo_def)

text \<open>
  C8. For every graph built from the empty graph by a sequence of edge insertions, the
  sum over all vertices of the weighted out-degree equals the sum over all vertices of
  the weighted in-degree, and both equal the total inserted weight: one unit for each
  inserted pair whose sender and recipient differ (a pair with equal ends inserts
  nothing). The same totals come out of the lists the program computes: the degrees
  listed by \<^verbatim>\<open>top_20_grau_saida\<close> before it sorts and cuts, and the values of the
  dictionary that \<^verbatim>\<open>top_20_grau_entrada\<close> accumulates (a vertex without an entry
  there has in-degree 0).
\<close>

theorem degree_balance:
  "(\<Sum>v\<leftarrow>vertices (inserir_arestas es init_grafo). out_degree (inserir_arestas es init_grafo) v)
     = int (length (filter (\<lambda>(de, para). de \<noteq> para) es))
   \<and> (\<Sum>v\<leftarrow>vertices (inserir_arestas es init_grafo). in_degree (inserir_arestas es init_grafo) v)
     = int (length (filter (\<lambda>(de, para). de \<noteq> para) es))
   \<and> sum_list (map fst (graus_saida (inserir_arestas es init_grafo)))
     = int (length (filter (\<lambda>(de, para). de \<noteq> para) es))
   \<and> sum_list (map snd (graus_entrada (inserir_arestas es init_grafo)))
     = int (length (filter (\<lambda>(de, para). de \<noteq> para) es))"
proof -
  define g where "g = inserir_arestas es init_grafo"
  have ok: "grafo_ok g" unfolding g_def by (rule grafo_ok_inserir_arestas)
  then have d: "distinct (map fst (grafo g))" by (simp add: grafo_ok_def)
  have tot: "peso_total g = int (length (filter (\<lambda>(de, para). de \<noteq> para) es))"
    unfolding g_def by (simp add: peso_total_inserir_arestas peso_total_init)
  show ?thesis
    unfolding g_def [symmetric]
    using sum_out_degree [OF ok] sum_in_degree [OF ok] sum_graus_saida [OF d]
      sum_graus_entrada [OF d] tot
    by simp
qed

section \<open>Searches from a vertex without outgoing edges\<close>

lemma dijkstra_sem_vizinhos:
  assumes "dict_get (grafo g) origem [] = []"
  shows "dijkstra_com_caminhos g origem = Some (Inr ([(origem, 0)], [(origem, [origem])]))"
proof -
  have 1: "passo_dijkstra g (Inr ([(origem, 0)], [(origem, [origem])], [(0, origem)]))
             = Inr ([(origem, 0)], [(origem, [origem])], [])"
    by (simp add: passo_dijkstra_def assms)
  have "while_option fila_pendente_dijkstra (passo_dijkstra g)
          (Inr ([(origem, 0)], [(origem, [origem])], [(0, origem)]))
        = Some (Inr ([(origem, 0)], [(origem, [origem])], []))"
    by (subst while_option_unfold, simp add: fila_pendente_dijkstra_def 1,
        subst while_option_unfold, simp add: fila_pendente_dijkstra_def)
  then show ?thesis by (simp add: dijkstra_com_caminhos_def)
qed

lemma vertices_ate_distancia_sem_vizinhos:
  assumes "dict_get (grafo g) origem [] = []"
  shows "vertices_ate_distancia g origem distancia_max = Some (Inr [])"
proof -
  have 1: "passo_limitado g distancia_max (Inr ([(origem, 0)], [(0, origem)]))
             = Inr ([(origem, 0)], [])"
    by (simp add: passo_limitado_def assms)
  have "while_option fila_pendente (passo_limitado g distancia_max)
          (Inr ([(origem, 0)], [(0, origem)]))
        = Some (Inr ([(origem, 0)], []))"
    by (subst while_option_unfold, simp add: fila_pendente_def 1,
        subst while_option_unfold, simp add: fila_pendente_def)
  then show ?thesis by (simp add: vertices_ate_distancia_def)
qed

lemma vizinhos_ausente:
  assumes "grafo_ok g" and "origem \<notin> set (vertices g)"
  shows "dict_get (grafo g) origem [] = []"
proof -
  from assms have "origem \<notin> fst ` set (grafo g)" by (simp add: grafo_ok_def)
  then have "map_of (grafo g) origem = None" by (simp add: map_of_eq_None_iff)
  then show ?thesis by (simp add: dict_get_def)
qed

text \<open>
  C9. A query from a vertex identifier absent from the graph raises no error:
  \<^verbatim>\<open>_dijkstra_com_caminhos\<close> returns the distances \<open>{origem: 0}\<close> and the paths
  \<open>{origem: [origem]}\<close> and nothing else, and \<^verbatim>\<open>vertices_ate_distancia\<close> returns the
  empty list, whatever the bound; the neighbour lookup \<^verbatim>\<open>self.grafo.get(origem, {})\<close>
  on the absent vertex is empty.
\<close>

theorem absent_origin:
  assumes "grafo_ok g" and "origem \<notin> set (vertices g)"
  shows "dijkstra_com_caminhos g origem = Some (Inr ([(origem, 0)], [(origem, [origem])]))
       \<and> vertices_ate_distancia g origem distancia_max = Some (Inr [])
       \<and> dict_get (grafo g) origem [] = []"
  using dijkstra_sem_vizinhos vertices_ate_distancia_sem_vizinhos vizinhos_ausente [OF assms]
  by simp

theorem absent_origin_witness:
  "grafo_ok (inserir_arestas [(''a'', ''b'')] init_grafo)
   \<and> ''z'' \<notin> set (vertices (inserir_arestas [(''a'', ''b'')] init_grafo))
   \<and> dijkstra_com_caminhos (inserir_arestas [(''a'', ''b'')] init_grafo) ''z''
       = Some (Inr ([(''z'', 0)], [(''z'', [''z''])]))
   \<and> vertices_ate_distancia (inserir_arestas [(''a'', ''b'')] init_grafo) ''z'' 10 = Some (Inr [])"
proof -
  have ok: "grafo_ok (inserir_arestas [(''a'', ''b'')] init_grafo)"
    by (rule grafo_ok_inserir_arestas)
  have v: "vertices (inserir_arestas [(''a'', ''b'')] init_grafo) = [''a'', ''b'']"
    by (simp add: inserir_arestas_def adicionar_aresta_def init_grafo_def set_add_def Let_def)
  have abs: "''z'' \<notin> set (vertices (inserir_arestas [(''a'', ''b'')] init_grafo))"
    unfolding v by simp
  show ?thesis
    using ok abs absent_origin [OF ok abs, of 10] by simp
qed

section \<open>The diameter of a graph without edges\<close>

lemma sem_arestas_vizinhos:
  assumes "arestas g = []"
  shows "dict_get (grafo g) origem [] = []"
proof (cases "map_of (grafo g) origem")
  case None
  then show ?thesis by (simp add: dict_get_def)
next
  case (Some ps)
  then have "(origem, ps) \<in> set (grafo g)" by (rule map_of_SomeD)
  with assms have "ps = []" by (force simp: arestas_def)
  with Some show ?thesis by (simp add: dict_get_def)
qed

lemma diametro_desde_sem_arestas:
  assumes "arestas g = []"
  shows "diametro_desde g vs (0, []) = Some (Inr (0, []))"
  by (induction vs) (simp_all add: dijkstra_sem_vizinhos [OF sem_arestas_vizinhos [OF assms]])

text \<open>
  C10. On a graph with no edge, whatever its vertices (none at all included),
  \<^verbatim>\<open>calcular_diametro\<close> returns the distance 0 with the empty list as its path: not a
  one-vertex path, and no error.
\<close>

theorem diameter_without_edges:
  assumes "arestas g = []"
  shows "calcular_diametro g = Some (Inr (0, []))"
  unfolding calcular_diametro_def by (rule diametro_desde_sem_arestas [OF assms])

theorem diameter_without_edges_witness:
  "arestas \<lparr>grafo = [(''a'', [])], vertices = [''a'']\<rparr> = []
   \<and> calcular_diametro \<lparr>grafo = [(''a'', [])], vertices = [''a'']\<rparr> = Some (Inr (0, []))
   \<and> arestas init_grafo = []
   \<and> calcular_diametro init_grafo = Some (Inr (0, []))"
proof -
  have 1: "arestas \<lparr>grafo = [(''a'', [])], vertices = [''a'']\<rparr> = []"
    by (simp add: arestas_def)
  have 2: "arestas init_grafo = []"
    by (simp add: arestas_def init_grafo_def)
  show ?thesis
    using 1 2 diameter_without_edges [OF 1] diameter_without_edges [OF 2] by simp
qed

section \<open>The degrees the program computes\<close>





















section \<open>The top-20 rankings\<close>













section \<open>Paths\<close>

lemma peso_aresta_arcos: "peso_aresta g u v \<noteq> None \<longleftrightarrow> (u, v) \<in> arcos (grafo g)"
  by (simp add: peso_aresta_def arcos_def map_of_eq_None_iff)

lemma eh_caminho_snoc:
  "eh_caminho g (p @ [w]) \<longleftrightarrow> p = [] \<or> (eh_caminho g p \<and> peso_aresta g (last p) w \<noteq> None)"
  by (induction g p rule: eh_caminho.induct) auto

lemma peso_caminho_snoc:
  "p \<noteq> [] \<Longrightarrow>
   peso_caminho g (p @ [w])
     = peso_caminho g p + (case peso_aresta g (last p) w of None \<Rightarrow> 0 | Some x \<Rightarrow> x)"
  by (induction g p rule: peso_caminho.induct) auto

lemma eh_caminho_nao_vazio: "eh_caminho g p \<Longrightarrow> p \<noteq> []"
  by auto

lemma caminho_entre_refl: "caminho_entre g u [u] u"
  by (simp add: caminho_entre_def)

lemma caminho_entre_snoc:
  assumes "caminho_entre g u p v" and "peso_aresta g v w = Some x"
  shows "caminho_entre g u (p @ [w]) w"
    and "peso_caminho g (p @ [w]) = peso_caminho g p + x"
proof -
  from assms(1) have p: "eh_caminho g p" "hd p = u" "last p = v" "p \<noteq> []"
    by (auto simp: caminho_entre_def)
  show "caminho_entre g u (p @ [w]) w"
    using p assms(2) by (simp add: caminho_entre_def eh_caminho_snoc)
  show "peso_caminho g (p @ [w]) = peso_caminho g p + x"
    using p assms(2) by (simp add: peso_caminho_snoc)
qed

lemma caminho_entre_cases:
  assumes "caminho_entre g u p v"
  shows "(p = [u] \<and> v = u)
       \<or> (\<exists>q y x. p = q @ [v] \<and> caminho_entre g u q y \<and> peso_aresta g y v = Some x)"
proof -
  from assms have p: "eh_caminho g p" "hd p = u" "last p = v" "p \<noteq> []"
    by (auto simp: caminho_entre_def)
  then obtain q where pq: "p = q @ [v]" by (metis append_butlast_last_id)
  show ?thesis
  proof (cases "q = []")
    case True
    with pq p show ?thesis by simp
  next
    case False
    with p(1) pq have "eh_caminho g q" "peso_aresta g (last q) v \<noteq> None"
      by (simp_all add: eh_caminho_snoc)
    moreover have "hd q = u" using p(2) pq False by simp
    ultimately show ?thesis using pq by (auto simp: caminho_entre_def)
  qed
qed

lemma caminho_induct [consumes 1, case_names refl snoc]:
  assumes "caminho_entre g u p v"
    and "P [u] u"
    and "\<And>q y w x. caminho_entre g u q y \<Longrightarrow> P q y \<Longrightarrow> peso_aresta g y w = Some x \<Longrightarrow> P (q @ [w]) w"
  shows "P p v"
  using assms(1)
proof (induction p arbitrary: v rule: rev_induct)
  case Nil
  then show ?case by (simp add: caminho_entre_def)
next
  case (snoc z q)
  from caminho_entre_cases [OF snoc.prems]
  show ?case
  proof
    assume "q @ [z] = [u] \<and> v = u"
    then show ?thesis using assms(2) by simp
  next
    assume "\<exists>q' y x. q @ [z] = q' @ [v] \<and> caminho_entre g u q' y \<and> peso_aresta g y v = Some x"
    then obtain y x where "z = v" "caminho_entre g u q y" "peso_aresta g y v = Some x" by auto
    then show ?thesis using snoc.IH assms(3) by blast
  qed
qed

lemma caminho_rtrancl:
  "(\<exists>p. caminho_entre g u p v) \<longleftrightarrow> (u, v) \<in> (arcos (grafo g))\<^sup>*"
proof
  assume "\<exists>p. caminho_entre g u p v"
  then obtain p where "caminho_entre g u p v" ..
  then show "(u, v) \<in> (arcos (grafo g))\<^sup>*"
  proof (induction rule: caminho_induct)
    case refl
    then show ?case by simp
  next
    case (snoc q y w x)
    then have "(y, w) \<in> arcos (grafo g)" using peso_aresta_arcos [of g y w] by simp
    with snoc show ?case by (simp add: rtrancl_into_rtrancl)
  qed
next
  assume "(u, v) \<in> (arcos (grafo g))\<^sup>*"
  then show "\<exists>p. caminho_entre g u p v"
  proof (induction rule: rtrancl_induct)
    case base
    show ?case using caminho_entre_refl by blast
  next
    case (step y z)
    then obtain p where p: "caminho_entre g u p y" by blast
    have "peso_aresta g y z \<noteq> None" using step(2) peso_aresta_arcos [of g y z] by blast
    then obtain x where "peso_aresta g y z = Some x" by blast
    from caminho_entre_snoc(1) [OF p this] show ?case by blast
  qed
qed

section \<open>Breadth-first search\<close>

lemma arcos_em_grafo: "(u, w) \<in> arcos gr \<Longrightarrow> \<exists>ps. (u, ps) \<in> set gr \<and> w \<in> fst ` set ps"
  by (cases "map_of gr u") (auto simp: arcos_def dict_get_def dest: map_of_SomeD)

lemma finite_Range_arcos: "finite (Range (arcos gr))"
proof -
  have "Range (arcos gr) \<subseteq> (\<Union>ps \<in> snd ` set gr. fst ` set ps)"
    using arcos_em_grafo by force
  then show ?thesis by (rule finite_subset) simp
qed

lemma finite_alcance: "finite ((arcos gr)\<^sup>* `` {inicio})"
proof -
  have "(arcos gr)\<^sup>* `` {inicio} \<subseteq> insert inicio (Range (arcos gr))"
    by (auto elim: rtranclE)
  then show ?thesis by (rule finite_subset) (simp add: finite_Range_arcos)
qed

lemma bfs_inv_init: "bfs_inv gr inicio ([], [inicio])"
  by (simp add: bfs_inv_def)

lemma bfs_inv_passo:
  assumes "bfs_inv gr inicio (visitados, atual # resto)"
  shows "bfs_inv gr inicio (bfs_passo gr (visitados, atual # resto))"
proof (cases "atual \<in> set visitados")
  case True
  then have "bfs_passo gr (visitados, atual # resto) = (visitados, resto)"
    by (simp add: bfs_passo_def)
  moreover have "bfs_inv gr inicio (visitados, resto)"
    using assms True unfolding bfs_inv_def by auto
  ultimately show ?thesis by simp
next
  case False
  define novos where "novos = map fst (dict_get gr atual [])"
  have passo: "bfs_passo gr (visitados, atual # resto) = (visitados @ [atual], resto @ novos)"
    using False by (simp add: bfs_passo_def set_add_def novos_def)
  have novos: "set novos = {w. (atual, w) \<in> arcos gr}"
    by (auto simp: novos_def arcos_def)
  from assms have inv: "distinct visitados"
    "set visitados \<subseteq> (arcos gr)\<^sup>* `` {inicio}"
    "atual \<in> (arcos gr)\<^sup>* `` {inicio}"
    "set resto \<subseteq> (arcos gr)\<^sup>* `` {inicio}"
    "inicio \<in> set visitados \<union> set (atual # resto)"
    "\<forall>u \<in> set visitados. \<forall>w. (u, w) \<in> arcos gr \<longrightarrow> w \<in> set visitados \<union> set (atual # resto)"
    unfolding bfs_inv_def by auto
  have "set novos \<subseteq> (arcos gr)\<^sup>* `` {inicio}"
    using inv(3) unfolding novos by (auto intro: rtrancl_into_rtrancl)
  moreover have "\<forall>u \<in> set (visitados @ [atual]). \<forall>w. (u, w) \<in> arcos gr \<longrightarrow>
                    w \<in> set (visitados @ [atual]) \<union> set (resto @ novos)"
    using inv(6) novos by auto
  ultimately have "bfs_inv gr inicio (visitados @ [atual], resto @ novos)"
    unfolding bfs_inv_def using inv(1-5) False by auto
  then show ?thesis by (simp add: passo)
qed

lemma bfs_passo_decresce:
  assumes "bfs_inv gr inicio (visitados, atual # resto)"
  shows "(bfs_passo gr (visitados, atual # resto), (visitados, atual # resto))
           \<in> inv_image (less_than <*lex*> less_than)
                (\<lambda>(vis, fila). (card ((arcos gr)\<^sup>* `` {inicio} - set vis), length fila))"
proof (cases "atual \<in> set visitados")
  case True
  then show ?thesis by (simp add: bfs_passo_def)
next
  case False
  from assms have "atual \<in> (arcos gr)\<^sup>* `` {inicio}" unfolding bfs_inv_def by auto
  with False have "(arcos gr)\<^sup>* `` {inicio} - set (visitados @ [atual])
                     \<subset> (arcos gr)\<^sup>* `` {inicio} - set visitados"
    by auto
  then have "card ((arcos gr)\<^sup>* `` {inicio} - set (visitados @ [atual]))
               < card ((arcos gr)\<^sup>* `` {inicio} - set visitados)"
    by (rule psubset_card_mono [rotated]) (simp add: finite_alcance)
  then show ?thesis using False by (simp add: bfs_passo_def set_add_def)
qed

lemma bfs_alcance:
  "\<exists>vis. bfs gr inicio = Some vis \<and> set vis = (arcos gr)\<^sup>* `` {inicio}"
proof -
  let ?b = "\<lambda>(visitados, fila). fila \<noteq> ([] :: vertex list)"
  let ?P = "bfs_inv gr inicio"
  have pres: "?P (bfs_passo gr s)" if "?P s" "?b s" for s
  proof -
    obtain visitados fila where s: "s = (visitados, fila)" by (cases s)
    with that(2) obtain atual resto where "fila = atual # resto" by (cases fila) auto
    with that(1) s show ?thesis by (simp add: bfs_inv_passo)
  qed
  have "wf {(t, s). (?P s \<and> ?b s) \<and> t = bfs_passo gr s}"
  proof (rule wf_subset)
    show "wf (inv_image (less_than <*lex*> less_than)
                (\<lambda>(vis, fila). (card ((arcos gr)\<^sup>* `` {inicio} - set vis), length fila)))"
      by (intro wf_inv_image wf_lex_prod wf_less_than)
    show "{(t, s). (?P s \<and> ?b s) \<and> t = bfs_passo gr s}
            \<subseteq> inv_image (less_than <*lex*> less_than)
                (\<lambda>(vis, fila). (card ((arcos gr)\<^sup>* `` {inicio} - set vis), length fila))"
    proof
      fix x assume x: "x \<in> {(t, s). (?P s \<and> ?b s) \<and> t = bfs_passo gr s}"
      obtain t s where ts: "x = (t, s)" by (cases x)
      obtain visitados fila where s: "s = (visitados, fila)" by (cases s)
      from x ts s obtain atual resto where f: "fila = atual # resto" by (cases fila) auto
      from x ts s f have "?P (visitados, atual # resto)" "t = bfs_passo gr (visitados, atual # resto)"
        by auto
      with bfs_passo_decresce [of gr inicio visitados atual resto] ts s f
      show "x \<in> inv_image (less_than <*lex*> less_than)
                (\<lambda>(vis, fila). (card ((arcos gr)\<^sup>* `` {inicio} - set vis), length fila))"
        by simp
    qed
  qed
  from wf_while_option_Some [of ?P ?b "bfs_passo gr", OF this _ bfs_inv_init] pres
  obtain t where t: "while_option ?b (bfs_passo gr) ([], [inicio]) = Some t" by blast
  obtain vis fila where vf: "t = (vis, fila)" by (cases t)
  have "\<not> ?b t" using while_option_stop [OF t] .
  with vf have fila: "fila = []" by simp
  have "?P t" by (rule while_option_rule [where P = ?P, OF _ t bfs_inv_init]) (rule pres)
  with vf fila have inv: "set vis \<subseteq> (arcos gr)\<^sup>* `` {inicio}" "inicio \<in> set vis"
    "\<forall>u \<in> set vis. \<forall>w. (u, w) \<in> arcos gr \<longrightarrow> w \<in> set vis"
    unfolding bfs_inv_def by auto
  have "v \<in> set vis" if "(inicio, v) \<in> (arcos gr)\<^sup>*" for v
    using that by (induction rule: rtrancl_induct) (use inv in auto)
  with inv(1) have "set vis = (arcos gr)\<^sup>* `` {inicio}" by auto
  moreover have "bfs gr inicio = Some vis" by (simp add: bfs_def t vf)
  ultimately show ?thesis by blast
qed

section \<open>The transposed graph\<close>

lemma fold_keys:
  assumes "distinct (map fst xs)"
  shows "fold (\<lambda>u. F u (dict_get xs u [])) (map fst xs) = fold (\<lambda>(u, ps). F u ps) xs"
proof -
  have "fold (\<lambda>u. F u (dict_get xs u [])) (map fst xs) = fold ((\<lambda>u. F u (dict_get xs u [])) \<circ> fst) xs"
    by (rule fold_map)
  also have "\<dots> = fold (\<lambda>(u, ps). F u ps) xs"
  proof (rule ext, rule fold_cong [OF refl refl])
    fix x assume "x \<in> set xs"
    obtain u ps where x: "x = (u, ps)" by (cases x)
    with \<open>x \<in> set xs\<close> assms have "map_of xs u = Some ps" by simp
    then show "((\<lambda>u. F u (dict_get xs u [])) \<circ> fst) x = (case x of (u, ps) \<Rightarrow> F u ps)"
      by (simp add: x dict_get_def)
  qed
  finally show ?thesis .
qed

lemma arcos_Nil: "arcos [] = {}"
  by (simp add: arcos_def dict_get_def)

lemma arcos_update:
  "arcos (AList.update v (AList.update u p (dict_get r v [])) r) = insert (v, u) (arcos r)"
proof -
  have dg: "dict_get (AList.update v X r) v' [] = (if v' = v then X else dict_get r v' [])"
    for X :: pesos and v'
    by (simp add: dict_get_def update_conv')
  have k: "fst ` set (dict_get (AList.update v (AList.update u p (dict_get r v [])) r) a [])
             = (if a = v then insert u (fst ` set (dict_get r v [])) else fst ` set (dict_get r a []))"
    for a
    by (simp add: dg dom_update)
  have "(a, b) \<in> arcos (AList.update v (AList.update u p (dict_get r v [])) r)
          \<longleftrightarrow> (a, b) \<in> insert (v, u) (arcos r)" for a b
    unfolding arcos_def mem_Collect_eq prod.case k by simp
  then show ?thesis by (intro set_eqI) (simp add: split_paired_all)
qed

lemma arcos_fold_interno:
  "arcos (fold (\<lambda>(v, p) r. AList.update v (AList.update u p (dict_get r v [])) r) ps r)
     = arcos r \<union> {(v, u) | v. v \<in> fst ` set ps}"
proof (induction ps arbitrary: r)
  case Nil
  then show ?case by simp
next
  case (Cons x ps)
  obtain v p where x: "x = (v, p)" by (cases x)
  show ?case unfolding x by (simp add: Cons arcos_update) blast
qed

lemma arcos_fold_externo:
  "arcos (fold (\<lambda>(u, ps) r. fold (\<lambda>(v, p) r. AList.update v (AList.update u p (dict_get r v [])) r) ps r) xs r)
     = arcos r \<union> {(v, u). \<exists>ps. (u, ps) \<in> set xs \<and> v \<in> fst ` set ps}"
proof (induction xs arbitrary: r)
  case Nil
  then show ?case by simp
next
  case (Cons x xs)
  obtain u ps where x: "x = (u, ps)" by (cases x)
  show ?case unfolding x by (simp add: Cons arcos_fold_interno) blast
qed

lemma arcos_distinct:
  assumes "distinct (map fst gr)"
  shows "arcos gr = {(u, v). \<exists>ps. (u, ps) \<in> set gr \<and> v \<in> fst ` set ps}"
proof -
  have dg: "dict_get gr u [] = ps" if "(u, ps) \<in> set gr" for u ps
    using that assms by (simp add: dict_get_def)
  have "(u, v) \<in> arcos gr \<longleftrightarrow> (\<exists>ps. (u, ps) \<in> set gr \<and> v \<in> fst ` set ps)" for u v
  proof
    assume "(u, v) \<in> arcos gr"
    then show "\<exists>ps. (u, ps) \<in> set gr \<and> v \<in> fst ` set ps" by (rule arcos_em_grafo)
  next
    assume "\<exists>ps. (u, ps) \<in> set gr \<and> v \<in> fst ` set ps"
    then obtain ps where a: "(u, ps) \<in> set gr" "v \<in> fst ` set ps" by blast
    show "(u, v) \<in> arcos gr"
      unfolding arcos_def mem_Collect_eq prod.case dg [OF a(1)] by (rule a(2))
  qed
  then show ?thesis by (intro set_eqI) (simp add: split_paired_all)
qed

lemma arcos_reverso:
  assumes "distinct (map fst gr)"
  shows "arcos (reverso gr) = (arcos gr)\<inverse>"
proof -
  have "reverso gr = fold (\<lambda>(u, ps) r. fold (\<lambda>(v, p) r. AList.update v (AList.update u p (dict_get r v [])) r) ps r) gr []"
    unfolding reverso_def
    using fold_keys [OF assms, of "\<lambda>u ps r. fold (\<lambda>(v, p) r. AList.update v (AList.update u p (dict_get r v [])) r) ps r"]
    by simp
  then show ?thesis
    by (auto simp: arcos_fold_externo arcos_Nil arcos_distinct [OF assms])
qed

section \<open>Strong connectivity\<close>

lemma eh_fortemente_conexo_alcance:
  assumes "distinct (map fst (grafo g))" and "vertices g = v0 # vs"
  shows "eh_fortemente_conexo g
           = Some ((arcos (grafo g))\<^sup>* `` {v0} = set (vertices g)
                   \<and> ((arcos (grafo g))\<inverse>)\<^sup>* `` {v0} = set (vertices g))"
proof -
  obtain normal where n: "bfs (grafo g) v0 = Some normal"
    "set normal = (arcos (grafo g))\<^sup>* `` {v0}"
    using bfs_alcance by blast
  obtain inverso where i: "bfs (reverso (grafo g)) v0 = Some inverso"
    "set inverso = (arcos (reverso (grafo g)))\<^sup>* `` {v0}"
    using bfs_alcance by blast
  show ?thesis
    by (simp add: eh_fortemente_conexo_def assms(2) n i arcos_reverso [OF assms(1)] del: rtrancl_converse)
qed

lemma arcos_fechado:
  assumes "grafo_ok g" and "(u, v) \<in> arcos (grafo g)"
  shows "u \<in> set (vertices g)" and "v \<in> set (vertices g)"
proof -
  from arcos_em_grafo [OF assms(2)] obtain ps where ps: "(u, ps) \<in> set (grafo g)" "v \<in> fst ` set ps"
    by blast
  from ps(1) assms(1) show "u \<in> set (vertices g)" by (force simp: grafo_ok_def)
  from ps assms(1) show "v \<in> set (vertices g)" by (fastforce simp: grafo_ok_def)
qed

lemma alcance_fechado:
  assumes "grafo_ok g" and "u \<in> set (vertices g)" and "(u, v) \<in> (arcos (grafo g))\<^sup>*"
  shows "v \<in> set (vertices g)"
  using assms(3,2) by (induction rule: rtrancl_induct) (auto dest: arcos_fechado(2) [OF assms(1)])

lemma alcance_inverso_fechado:
  assumes "grafo_ok g" and "v \<in> set (vertices g)" and "(u, v) \<in> (arcos (grafo g))\<^sup>*"
  shows "u \<in> set (vertices g)"
  using assms(3,2) by (induction rule: converse_rtrancl_induct) (auto dest: arcos_fechado(1) [OF assms(1)])

lemma fortemente_conexo_rtrancl:
  "fortemente_conexo g \<longleftrightarrow>
     (\<forall>u \<in> set (vertices g). \<forall>v \<in> set (vertices g). (u, v) \<in> (arcos (grafo g))\<^sup>*)"
  by (simp add: fortemente_conexo_def caminho_rtrancl)

lemma eh_fortemente_conexo_correto:
  assumes "grafo_ok g"
  shows "eh_fortemente_conexo g = Some (fortemente_conexo g)"
proof (cases "vertices g")
  case Nil
  then show ?thesis by (simp add: eh_fortemente_conexo_def fortemente_conexo_def)
next
  case (Cons v0 vs)
  let ?E = "arcos (grafo g)"
  let ?V = "set (vertices g)"
  from assms have d: "distinct (map fst (grafo g))" by (simp add: grafo_ok_def)
  from Cons have v0: "v0 \<in> ?V" by simp
  have "(?E\<^sup>* `` {v0} = ?V \<and> (?E\<inverse>)\<^sup>* `` {v0} = ?V) \<longleftrightarrow> fortemente_conexo g"
  proof
    assume a: "?E\<^sup>* `` {v0} = ?V \<and> (?E\<inverse>)\<^sup>* `` {v0} = ?V"
    show "fortemente_conexo g"
      unfolding fortemente_conexo_rtrancl
    proof (intro ballI)
      fix u v assume "u \<in> ?V" "v \<in> ?V"
      with a have "(v0, v) \<in> ?E\<^sup>*" "(v0, u) \<in> (?E\<inverse>)\<^sup>*" by auto
      then have "(u, v0) \<in> ?E\<^sup>*" "(v0, v) \<in> ?E\<^sup>*" by (simp_all add: rtrancl_converse)
      then show "(u, v) \<in> ?E\<^sup>*" by (rule rtrancl_trans)
    qed
  next
    assume "fortemente_conexo g"
    then have sc: "\<And>u v. u \<in> ?V \<Longrightarrow> v \<in> ?V \<Longrightarrow> (u, v) \<in> ?E\<^sup>*"
      unfolding fortemente_conexo_rtrancl by blast
    have "?E\<^sup>* `` {v0} = ?V"
      using sc [OF v0] alcance_fechado [OF assms v0] by auto
    moreover have "(?E\<inverse>)\<^sup>* `` {v0} = ?V"
      using sc [OF _ v0] alcance_inverso_fechado [OF assms v0] by (auto simp: rtrancl_converse)
    ultimately show "?E\<^sup>* `` {v0} = ?V \<and> (?E\<inverse>)\<^sup>* `` {v0} = ?V" ..
  qed
  then show ?thesis by (simp only: eh_fortemente_conexo_alcance [OF d Cons])
qed

text \<open>
  C4. \<^verbatim>\<open>_eh_fortemente_conexo\<close> always returns, and it returns true exactly when the
  vertex set is empty or every vertex is reachable from every other vertex along the
  edges: the two traversals from one vertex, forwards and on the transposed graph,
  decide strong connectivity.
\<close>

theorem strongly_connected_test:
  assumes "grafo_ok g"
  shows "eh_fortemente_conexo g = Some (vertices g = [] \<or> fortemente_conexo g)"
proof -
  have "vertices g = [] \<Longrightarrow> fortemente_conexo g" by (simp add: fortemente_conexo_def)
  then show ?thesis using eh_fortemente_conexo_correto [OF assms] by auto
qed

theorem strongly_connected_test_witness:
  "grafo_ok (inserir_arestas [(''a'', ''b''), (''b'', ''c''), (''c'', ''a'')] init_grafo)
   \<and> eh_fortemente_conexo (inserir_arestas [(''a'', ''b''), (''b'', ''c''), (''c'', ''a'')] init_grafo)
       = Some True
   \<and> fortemente_conexo (inserir_arestas [(''a'', ''b''), (''b'', ''c''), (''c'', ''a'')] init_grafo)"
proof -
  have ok: "grafo_ok (inserir_arestas [(''a'', ''b''), (''b'', ''c''), (''c'', ''a'')] init_grafo)"
    by (rule grafo_ok_inserir_arestas)
  have e: "eh_fortemente_conexo (inserir_arestas [(''a'', ''b''), (''b'', ''c''), (''c'', ''a'')] init_grafo)
       = Some True"
    by code_simp
  have v: "vertices (inserir_arestas [(''a'', ''b''), (''b'', ''c''), (''c'', ''a'')] init_grafo) \<noteq> []"
    by code_simp
  from strongly_connected_test [OF ok] have
    "eh_fortemente_conexo (inserir_arestas [(''a'', ''b''), (''b'', ''c''), (''c'', ''a'')] init_grafo)
       = Some (fortemente_conexo (inserir_arestas [(''a'', ''b''), (''b'', ''c''), (''c'', ''a'')] init_grafo))"
    using v by simp
  with e have "fortemente_conexo (inserir_arestas [(''a'', ''b''), (''b'', ''c''), (''c'', ''a'')] init_grafo)"
    by simp
  with ok e show ?thesis by blast
qed

section \<open>The Eulerian check\<close>












section \<open>Edges and paths of a well-formed graph\<close>

lemma vizinhos_ok:
  assumes "grafo_ok g"
  shows "distinct (map fst (dict_get (grafo g) u []))"
    and "(w, x) \<in> set (dict_get (grafo g) u []) \<Longrightarrow> 0 < x \<and> w \<in> set (vertices g)"
proof -
  from assms have ok:
    "set (vertices g) = dom (map_of (grafo g))"
    "\<And>u ps. map_of (grafo g) u = Some ps \<Longrightarrow> distinct (map fst ps)"
    "\<And>u ps v peso. map_of (grafo g) u = Some ps \<Longrightarrow> map_of ps v = Some peso \<Longrightarrow> 0 < peso \<and> v \<in> dom (map_of (grafo g))"
    unfolding grafo_ok_map_of by blast+
  show d: "distinct (map fst (dict_get (grafo g) u []))"
    using ok(2) by (cases "map_of (grafo g) u") (simp_all add: dict_get_def)
  show "0 < x \<and> w \<in> set (vertices g)" if "(w, x) \<in> set (dict_get (grafo g) u [])"
  proof (cases "map_of (grafo g) u")
    case None
    with that show ?thesis by (simp add: dict_get_def)
  next
    case (Some ps)
    with that have "(w, x) \<in> set ps" by (simp add: dict_get_def)
    with ok(2) [OF Some] have "map_of ps w = Some x" by simp
    from ok(3) [OF Some this] show ?thesis by (simp add: ok(1))
  qed
qed

lemma peso_aresta_itens:
  assumes "grafo_ok g"
  shows "peso_aresta g u w = Some x \<longleftrightarrow> (w, x) \<in> set (dict_get (grafo g) u [])"
  unfolding peso_aresta_def using vizinhos_ok(1) [OF assms, of u] by simp

lemma peso_aresta_pos:
  assumes "grafo_ok g" and "peso_aresta g u w = Some x"
  shows "0 < x" and "w \<in> set (vertices g)"
  using vizinhos_ok(2) [OF assms(1), of w x u] assms(2) peso_aresta_itens [OF assms(1)] by blast+

lemma peso_caminho_nonneg:
  assumes "grafo_ok g" and "caminho_entre g u p v"
  shows "0 \<le> peso_caminho g p"
  using assms(2)
proof (induction rule: caminho_induct)
  case refl
  then show ?case by simp
next
  case (snoc q y w x)
  from caminho_entre_snoc(2) [OF snoc.hyps] peso_aresta_pos(1) [OF assms(1) snoc.hyps(2)] snoc.IH
  show ?case by simp
qed

section \<open>The measure of a search\<close>

lemma sum_snd_update:
  "sum_list (map snd (AList.update k v al))
     = sum_list (map snd al) - (case map_of al k of None \<Rightarrow> 0 | Some old \<Rightarrow> old) + (v :: int)"
  using sum_update [of "\<lambda>x. x" k v al] by (simp add: case_prod_unfold)

lemma sum_snd_nonneg:
  "\<forall>(k, v) \<in> set al. 0 \<le> (v :: int) \<Longrightarrow> 0 \<le> sum_list (map snd al)"
  by (induction al) auto

lemma medida_dist_update:
  assumes "\<forall>(k, v) \<in> set dist. 0 \<le> v"
    and "fst ` set dist \<subseteq> insert origem (set (vertices g))"
    and "w \<in> insert origem (set (vertices g))"
    and "0 \<le> n"
    and "case map_of dist w of None \<Rightarrow> True | Some d \<Rightarrow> n < d"
  shows "(medida_dist g origem (AList.update w n dist), medida_dist g origem dist)
           \<in> less_than <*lex*> less_than"
proof (cases "map_of dist w")
  case None
  then have "w \<notin> fst ` set dist" by (simp add: map_of_eq_None_iff)
  with assms(3) have "insert origem (set (vertices g)) - fst ` set (AList.update w n dist)
                        \<subset> insert origem (set (vertices g)) - fst ` set dist"
    by (auto simp: dom_update)
  then have "card (insert origem (set (vertices g)) - fst ` set (AList.update w n dist))
               < card (insert origem (set (vertices g)) - fst ` set dist)"
    by (rule psubset_card_mono [rotated]) simp
  then show ?thesis by (simp add: medida_dist_def)
next
  case (Some d)
  then have "w \<in> fst ` set dist" using map_of_eq_None_iff [of dist w] by auto
  then have k: "fst ` set (AList.update w n dist) = fst ` set dist"
    by (auto simp: dom_update)
  from Some assms(5) have "n < d" by simp
  moreover have "sum_list (map snd (AList.update w n dist)) = sum_list (map snd dist) - d + n"
    by (simp add: sum_snd_update Some)
  moreover have "0 \<le> sum_list (map snd (AList.update w n dist))"
  proof (rule sum_snd_nonneg, clarify)
    fix k v assume "(k, v) \<in> set (AList.update w n dist)"
    then have "(k, v) \<in> set dist \<or> v = n"
      by (induction dist) (auto split: if_splits)
    with assms(1,4) show "0 \<le> v" by auto
  qed
  ultimately have "nat (sum_list (map snd (AList.update w n dist))) < nat (sum_list (map snd dist))"
    by simp
  then show ?thesis by (simp add: medida_dist_def k)
qed

section \<open>The bounded search\<close>

lemma set_insort_par: "set (insort a xs) = insert a (set xs)"
  by (simp add: set_insort_key)

lemma inv_limitadoD:
  assumes "inv_limitado g origem B X (dist, fila)"
  shows "distinct (map fst dist)"
    and "map_of dist origem = Some 0"
    and "fst ` set dist \<subseteq> insert origem (set (vertices g))"
    and "\<And>v dv. map_of dist v = Some dv \<Longrightarrow>
           (\<exists>c. caminho_entre g origem c v \<and> peso_caminho g c = dv) \<and> (v \<noteq> origem \<longrightarrow> dv \<le> B)"
    and "\<And>dv v. (dv, v) \<in> set fila \<Longrightarrow> \<exists>d'. map_of dist v = Some d' \<and> d' \<le> dv"
    and "\<And>v dv. map_of dist v = Some dv \<Longrightarrow>
           v \<in> X \<or> (dv, v) \<in> set fila \<or> concluido_limitado g B dist v"
proof -
  from assms have a:
    "distinct (map fst dist) \<and> map_of dist origem = Some 0
     \<and> fst ` set dist \<subseteq> insert origem (set (vertices g))
     \<and> (\<forall>v d. map_of dist v = Some d \<longrightarrow>
              (\<exists>c. caminho_entre g origem c v \<and> peso_caminho g c = d) \<and> (v \<noteq> origem \<longrightarrow> d \<le> B))
     \<and> (\<forall>(d, v) \<in> set fila. \<exists>d'. map_of dist v = Some d' \<and> d' \<le> d)
     \<and> (\<forall>v d. map_of dist v = Some d \<longrightarrow>
              v \<in> X \<or> (d, v) \<in> set fila \<or> concluido_limitado g B dist v)"
    unfolding inv_limitado_def prod.case .
  from a have a4: "\<forall>v d. map_of dist v = Some d \<longrightarrow>
              (\<exists>c. caminho_entre g origem c v \<and> peso_caminho g c = d) \<and> (v \<noteq> origem \<longrightarrow> d \<le> B)"
    by (elim conjE)
  from a have a5: "\<forall>(d, v) \<in> set fila. \<exists>d'. map_of dist v = Some d' \<and> d' \<le> d"
    by (elim conjE)
  from a have a6: "\<forall>v d. map_of dist v = Some d \<longrightarrow>
              v \<in> X \<or> (d, v) \<in> set fila \<or> concluido_limitado g B dist v"
    by (elim conjE)
  from a show "distinct (map fst dist)" by (elim conjE)
  from a show "map_of dist origem = Some 0" by (elim conjE)
  from a show "fst ` set dist \<subseteq> insert origem (set (vertices g))" by (elim conjE)
  show "(\<exists>c. caminho_entre g origem c v \<and> peso_caminho g c = dv) \<and> (v \<noteq> origem \<longrightarrow> dv \<le> B)"
    if "map_of dist v = Some dv" for v dv
    using a4 [rule_format, OF that] .
  show "\<exists>d'. map_of dist v = Some d' \<and> d' \<le> dv" if "(dv, v) \<in> set fila" for dv v
    using bspec [OF a5 that] by simp
  show "v \<in> X \<or> (dv, v) \<in> set fila \<or> concluido_limitado g B dist v"
    if "map_of dist v = Some dv" for v dv
    using a6 [rule_format, OF that] .
qed

lemma inv_limitado_valores:
  assumes "grafo_ok g" and "inv_limitado g origem B X (dist, fila)"
  shows "\<forall>(k, v) \<in> set dist. 0 \<le> v"
proof (clarify)
  fix k v assume "(k, v) \<in> set dist"
  with inv_limitadoD(1) [OF assms(2)] have "map_of dist k = Some v" by simp
  from inv_limitadoD(4) [OF assms(2) this] obtain c where "caminho_entre g origem c k" "peso_caminho g c = v"
    by blast
  with peso_caminho_nonneg [OF assms(1)] show "0 \<le> v" by blast
qed

lemma relaxar_limitado_passo:
  assumes ok: "grafo_ok g"
    and inv: "inv_limitado g origem B {u} (dist, fila)"
    and du: "map_of dist u = Some d"
    and e: "peso_aresta g u w = Some x"
  shows "\<exists>dist' fila'.
           relaxar_limitado B d (w, x) (dist, fila) = (dist', fila')
           \<and> inv_limitado g origem B {u} (dist', fila')
           \<and> map_of dist' u = Some d
           \<and> (\<forall>v dv. map_of dist v = Some dv \<longrightarrow> (\<exists>dv'. map_of dist' v = Some dv' \<and> dv' \<le> dv))
           \<and> (d + x \<le> B \<longrightarrow> (\<exists>d'. map_of dist' w = Some d' \<and> d' \<le> d + x))
           \<and> ((dist', fila') = (dist, fila)
               \<or> (medida_dist g origem dist', medida_dist g origem dist) \<in> less_than <*lex*> less_than)"
proof (cases "d + x \<le> B \<and> (case map_of dist w of None \<Rightarrow> True | Some d' \<Rightarrow> d + x < d')")
  case False
  have r: "relaxar_limitado B d (w, x) (dist, fila) = (dist, fila)"
    unfolding relaxar_limitado_def Let_def prod.case by (rule if_not_P [OF False])
  have "d + x \<le> B \<longrightarrow> (\<exists>d'. map_of dist w = Some d' \<and> d' \<le> d + x)"
    using False by (cases "map_of dist w") auto
  with r inv du show ?thesis by auto
next
  case True
  define n where "n = d + x"
  define dist' where "dist' = AList.update w n dist"
  define fila' where "fila' = insort (n, w) fila"
  have r: "relaxar_limitado B d (w, x) (dist, fila) = (dist', fila')"
    unfolding relaxar_limitado_def Let_def prod.case n_def dist'_def fila'_def
    by (rule if_P [OF True])
  from True have nB: "n \<le> B" and melhor: "case map_of dist w of None \<Rightarrow> True | Some d' \<Rightarrow> n < d'"
    unfolding n_def by blast+
  note i = inv_limitadoD [OF inv]
  from peso_aresta_pos [OF ok e] have xpos: "0 < x" and wV: "w \<in> set (vertices g)" by auto
  from i(4) [OF du] obtain cu where cu: "caminho_entre g origem cu u" "peso_caminho g cu = d"
    by blast
  with peso_caminho_nonneg [OF ok] have d0: "0 \<le> d" by blast
  then have n0: "0 < n" using xpos by (simp add: n_def)
  have wu: "w \<noteq> u" using melhor du xpos by (auto simp: n_def)
  have wo: "w \<noteq> origem" using melhor i(2) n0 by auto
  have m: "map_of dist' = (map_of dist)(w \<mapsto> n)"
    by (simp add: dist'_def update_conv')
  have mono: "\<exists>dv'. map_of dist' v = Some dv' \<and> dv' \<le> dv" if "map_of dist v = Some dv" for v dv
    using that melhor by (cases "v = w") (auto simp: m)
  have c_w: "caminho_entre g origem (cu @ [w]) w" "peso_caminho g (cu @ [w]) = n"
    using caminho_entre_snoc [OF cu(1) e] cu(2) by (simp_all add: n_def)
  have b': "(\<exists>c. caminho_entre g origem c v \<and> peso_caminho g c = dv) \<and> (v \<noteq> origem \<longrightarrow> dv \<le> B)"
    if "map_of dist' v = Some dv" for v dv
  proof (cases "v = w")
    case True
    with that have "dv = n" by (simp add: m)
    with True c_w nB show ?thesis by blast
  next
    case False
    with that have "map_of dist v = Some dv" by (simp add: m)
    from i(4) [OF this] show ?thesis .
  qed
  have c': "\<exists>d'. map_of dist' v = Some d' \<and> d' \<le> dv" if "(dv, v) \<in> set fila'" for dv v
  proof -
    from that have "(dv, v) = (n, w) \<or> (dv, v) \<in> set fila"
      by (simp add: fila'_def set_insort_par)
    then show ?thesis
    proof
      assume "(dv, v) = (n, w)"
      then show ?thesis by (simp add: m)
    next
      assume "(dv, v) \<in> set fila"
      from i(5) [OF this] obtain d' where "map_of dist v = Some d'" "d' \<le> dv" by blast
      with mono [OF this(1)] show ?thesis by force
    qed
  qed
  have conc: "concluido_limitado g B dist' v" if "concluido_limitado g B dist v" "v \<noteq> w" for v
    unfolding concluido_limitado_def
  proof (intro allI impI)
    fix dv w' x'
    assume a: "map_of dist' v = Some dv" "peso_aresta g v w' = Some x'" "dv + x' \<le> B"
    with that(2) have "map_of dist v = Some dv" by (simp add: m)
    with that(1) a obtain d'' where "map_of dist w' = Some d''" "d'' \<le> dv + x'"
      unfolding concluido_limitado_def by blast
    with mono [OF this(1)] show "\<exists>d'. map_of dist' w' = Some d' \<and> d' \<le> dv + x'" by force
  qed
  have d': "v \<in> {u} \<or> (dv, v) \<in> set fila' \<or> concluido_limitado g B dist' v"
    if "map_of dist' v = Some dv" for v dv
  proof (cases "v = w")
    case True
    with that have "dv = n" by (simp add: m)
    with True show ?thesis by (simp add: fila'_def set_insort_par)
  next
    case False
    with that have "map_of dist v = Some dv" by (simp add: m)
    from i(6) [OF this] conc [OF _ False] show ?thesis
      by (auto simp: fila'_def set_insort_par)
  qed
  have keys: "fst ` set dist' \<subseteq> insert origem (set (vertices g))"
    using i(3) wV by (auto simp: dist'_def dom_update)
  have "inv_limitado g origem B {u} (dist', fila')"
    unfolding inv_limitado_def prod.case
  proof (intro conjI)
    show "distinct (map fst dist')" using i(1) by (simp add: dist'_def distinct_update)
    show "map_of dist' origem = Some 0" using i(2) wo by (simp add: m)
    show "fst ` set dist' \<subseteq> insert origem (set (vertices g))" by (rule keys)
    show "\<forall>v d. map_of dist' v = Some d \<longrightarrow>
            (\<exists>c. caminho_entre g origem c v \<and> peso_caminho g c = d) \<and> (v \<noteq> origem \<longrightarrow> d \<le> B)"
      using b' by blast
    show "\<forall>(d, v) \<in> set fila'. \<exists>d'. map_of dist' v = Some d' \<and> d' \<le> d"
      using c' by blast
    show "\<forall>v d. map_of dist' v = Some d \<longrightarrow>
            v \<in> {u} \<or> (d, v) \<in> set fila' \<or> concluido_limitado g B dist' v"
      using d' by blast
  qed
  moreover have "map_of dist' u = Some d" using du wu by (simp add: m)
  moreover have "\<exists>d'. map_of dist' w = Some d' \<and> d' \<le> d + x" by (simp add: m n_def)
  moreover have "(medida_dist g origem dist', medida_dist g origem dist) \<in> less_than <*lex*> less_than"
    unfolding dist'_def
    using inv_limitado_valores [OF ok inv] i(3) wV n0 melhor
    by (intro medida_dist_update) auto
  ultimately show ?thesis using r mono by blast
qed

lemma trans_medida: "trans (less_than <*lex*> less_than)"
  by (intro trans_lex_prod trans_less_than)

lemma fold_relaxar_limitado:
  assumes ok: "grafo_ok g"
    and itens: "\<forall>(w, x) \<in> set itens. peso_aresta g u w = Some x"
    and inv: "inv_limitado g origem B {u} (dist, fila)"
    and du: "map_of dist u = Some d"
  shows "\<exists>dist' fila'.
           fold (relaxar_limitado B d) itens (dist, fila) = (dist', fila')
           \<and> inv_limitado g origem B {u} (dist', fila')
           \<and> map_of dist' u = Some d
           \<and> (\<forall>v dv. map_of dist v = Some dv \<longrightarrow> (\<exists>dv'. map_of dist' v = Some dv' \<and> dv' \<le> dv))
           \<and> (\<forall>(w, x) \<in> set itens. d + x \<le> B \<longrightarrow> (\<exists>d'. map_of dist' w = Some d' \<and> d' \<le> d + x))
           \<and> ((dist', fila') = (dist, fila)
               \<or> (medida_dist g origem dist', medida_dist g origem dist) \<in> less_than <*lex*> less_than)"
  using itens inv du
proof (induction itens arbitrary: dist fila)
  case Nil
  then show ?case by simp
next
  case (Cons e itens)
  obtain w x where e: "e = (w, x)" by (cases e)
  from Cons.prems(1) e have ew: "peso_aresta g u w = Some x"
    and resto: "\<forall>(w, x) \<in> set itens. peso_aresta g u w = Some x"
    by simp_all
  from relaxar_limitado_passo [OF ok Cons.prems(2,3) ew]
  obtain dist1 fila1 where 1:
    "relaxar_limitado B d (w, x) (dist, fila) = (dist1, fila1)"
    "inv_limitado g origem B {u} (dist1, fila1)"
    "map_of dist1 u = Some d"
    "\<And>v dv. map_of dist v = Some dv \<Longrightarrow> \<exists>dv'. map_of dist1 v = Some dv' \<and> dv' \<le> dv"
    "d + x \<le> B \<longrightarrow> (\<exists>d'. map_of dist1 w = Some d' \<and> d' \<le> d + x)"
    "(dist1, fila1) = (dist, fila)
       \<or> (medida_dist g origem dist1, medida_dist g origem dist) \<in> less_than <*lex*> less_than"
    by blast
  from Cons.IH [OF resto 1(2,3)]
  obtain dist2 fila2 where 2:
    "fold (relaxar_limitado B d) itens (dist1, fila1) = (dist2, fila2)"
    "inv_limitado g origem B {u} (dist2, fila2)"
    "map_of dist2 u = Some d"
    "\<And>v dv. map_of dist1 v = Some dv \<Longrightarrow> \<exists>dv'. map_of dist2 v = Some dv' \<and> dv' \<le> dv"
    "\<forall>(w, x) \<in> set itens. d + x \<le> B \<longrightarrow> (\<exists>d'. map_of dist2 w = Some d' \<and> d' \<le> d + x)"
    "(dist2, fila2) = (dist1, fila1)
       \<or> (medida_dist g origem dist2, medida_dist g origem dist1) \<in> less_than <*lex*> less_than"
    by blast
  have f: "fold (relaxar_limitado B d) (e # itens) (dist, fila) = (dist2, fila2)"
    by (simp add: e 1(1) 2(1))
  have mono: "\<exists>dv'. map_of dist2 v = Some dv' \<and> dv' \<le> dv" if "map_of dist v = Some dv" for v dv
  proof -
    from 1(4) [OF that] obtain d1 where "map_of dist1 v = Some d1" "d1 \<le> dv" by blast
    with 2(4) [OF this(1)] show ?thesis by force
  qed
  have este: "d + x \<le> B \<longrightarrow> (\<exists>d'. map_of dist2 w = Some d' \<and> d' \<le> d + x)"
  proof
    assume "d + x \<le> B"
    with 1(5) obtain d1 where "map_of dist1 w = Some d1" "d1 \<le> d + x" by blast
    with 2(4) [OF this(1)] show "\<exists>d'. map_of dist2 w = Some d' \<and> d' \<le> d + x" by force
  qed
  have rel: "\<forall>(w, x) \<in> set (e # itens). d + x \<le> B \<longrightarrow> (\<exists>d'. map_of dist2 w = Some d' \<and> d' \<le> d + x)"
    using este 2(5) by (simp add: e)
  have med: "(dist2, fila2) = (dist, fila)
       \<or> (medida_dist g origem dist2, medida_dist g origem dist) \<in> less_than <*lex*> less_than"
    using 1(6) 2(6) transD [OF trans_medida] by (metis prod.inject)
  from f 2(2,3) mono rel med show ?case by blast
qed

lemma inv_limitado_init:
  "inv_limitado g origem B {} ([(origem, 0)], [(0, origem)])"
proof -
  have "caminho_entre g origem [origem] origem \<and> peso_caminho g [origem] = 0"
    by (simp add: caminho_entre_def)
  then show ?thesis
    unfolding inv_limitado_def prod.case by (auto split: if_splits)
qed

lemma passo_limitado_inv:
  assumes ok: "grafo_ok g"
    and inv: "inv_limitado g origem B {} (dist, (dq, u) # resto)"
  shows "\<exists>dist' fila'.
           passo_limitado g B (Inr (dist, (dq, u) # resto)) = Inr (dist', fila')
           \<and> inv_limitado g origem B {} (dist', fila')
           \<and> ((medida_dist g origem dist', length fila'),
               (medida_dist g origem dist, length ((dq, u) # resto)))
                \<in> (less_than <*lex*> less_than) <*lex*> less_than"
proof -
  note i = inv_limitadoD [OF inv]
  from i(5) [of dq u] obtain du where du: "map_of dist u = Some du" "du \<le> dq" by auto
  have fila_resto: "v = u \<or> (dv, v) \<in> set resto \<or> concluido_limitado g B dist v"
    if "map_of dist v = Some dv" for v dv
    using i(6) [OF that] by auto
  have inv_u: "inv_limitado g origem B {u} (dist, resto)"
    unfolding inv_limitado_def prod.case
  proof (intro conjI)
    show "\<forall>(d, v) \<in> set resto. \<exists>d'. map_of dist v = Some d' \<and> d' \<le> d"
      using i(5) by auto
    show "\<forall>v d. map_of dist v = Some d \<longrightarrow>
            v \<in> {u} \<or> (d, v) \<in> set resto \<or> concluido_limitado g B dist v"
      using fila_resto by auto
    show "\<forall>v d. map_of dist v = Some d \<longrightarrow>
              (\<exists>c. caminho_entre g origem c v \<and> peso_caminho g c = d) \<and> (v \<noteq> origem \<longrightarrow> d \<le> B)"
      using i(4) by blast
  qed (use i(1-3) in auto)
  show ?thesis
  proof (cases "dq > du")
    case True
    then have p: "passo_limitado g B (Inr (dist, (dq, u) # resto)) = Inr (dist, resto)"
      by (simp add: passo_limitado_def du)
    have "v \<in> {} \<or> (dv, v) \<in> set resto \<or> concluido_limitado g B dist v"
      if "map_of dist v = Some dv" for v dv
    proof -
      from i(6) [OF that] have "(dv, v) = (dq, u) \<or> (dv, v) \<in> set resto \<or> concluido_limitado g B dist v"
        by auto
      moreover have "(dv, v) \<noteq> (dq, u)" using that du True by auto
      ultimately show ?thesis by blast
    qed
    then have "inv_limitado g origem B {} (dist, resto)"
      using inv_limitadoD [OF inv_u] unfolding inv_limitado_def prod.case
      by (intro conjI) blast+
    with p show ?thesis by simp
  next
    case False
    with du have eq: "du = dq" by simp
    define itens where "itens = dict_get (grafo g) u []"
    have p: "passo_limitado g B (Inr (dist, (dq, u) # resto))
               = Inr (fold (relaxar_limitado B dq) itens (dist, resto))"
      using False by (simp add: passo_limitado_def du itens_def)
    have it: "\<forall>(w, x) \<in> set itens. peso_aresta g u w = Some x"
      unfolding itens_def using peso_aresta_itens [OF ok] by blast
    from fold_relaxar_limitado [OF ok it inv_u du(1) [unfolded eq]]
    obtain dist' fila' where f:
      "fold (relaxar_limitado B dq) itens (dist, resto) = (dist', fila')"
      "inv_limitado g origem B {u} (dist', fila')"
      "map_of dist' u = Some dq"
      "\<forall>(w, x) \<in> set itens. dq + x \<le> B \<longrightarrow> (\<exists>d'. map_of dist' w = Some d' \<and> d' \<le> dq + x)"
      "(dist', fila') = (dist, resto)
         \<or> (medida_dist g origem dist', medida_dist g origem dist) \<in> less_than <*lex*> less_than"
      by blast
    have conc: "concluido_limitado g B dist' u"
      unfolding concluido_limitado_def
    proof (intro allI impI)
      fix d w x
      assume a: "map_of dist' u = Some d" "peso_aresta g u w = Some x" "d + x \<le> B"
      with f(3) have "d = dq" by simp
      moreover from a(2) have "(w, x) \<in> set itens"
        unfolding itens_def using peso_aresta_itens [OF ok] by blast
      ultimately show "\<exists>d'. map_of dist' w = Some d' \<and> d' \<le> d + x"
        using f(4) a(3) by blast
    qed
    note j = inv_limitadoD [OF f(2)]
    have "v \<in> {} \<or> (dv, v) \<in> set fila' \<or> concluido_limitado g B dist' v"
      if "map_of dist' v = Some dv" for v dv
      using j(6) [OF that] conc by auto
    then have "inv_limitado g origem B {} (dist', fila')"
      using j(1-5) unfolding inv_limitado_def prod.case
      by (intro conjI) blast+
    moreover have "((medida_dist g origem dist', length fila'),
               (medida_dist g origem dist, length ((dq, u) # resto)))
                \<in> (less_than <*lex*> less_than) <*lex*> less_than"
      using f(5) by auto
    ultimately show ?thesis using p f(1) by simp
  qed
qed

lemma vertices_ate_distancia_laco:
  assumes ok: "grafo_ok g"
  shows "\<exists>dist. while_option fila_pendente (passo_limitado g B) (Inr ([(origem, 0)], [(0, origem)]))
                   = Some (Inr (dist, []))
               \<and> inv_limitado g origem B {} (dist, [])"
proof -
  let ?P = "\<lambda>s. \<exists>dist fila. s = Inr (dist, fila) \<and> inv_limitado g origem B {} (dist, fila)"
  let ?c = "passo_limitado g B"
  let ?s0 = "Inr ([(origem, 0)], [(0, origem)]) :: erro + pesos \<times> fila_prioridade"
  have passo: "?P (?c s) \<and> (medida_limitado g origem (?c s), medida_limitado g origem s)
                              \<in> (less_than <*lex*> less_than) <*lex*> less_than"
    if "?P s" "fila_pendente s" for s
  proof -
    from that(1) obtain dist fila where s: "s = Inr (dist, fila)"
      and inv: "inv_limitado g origem B {} (dist, fila)" by blast
    from that(2) s obtain dq u resto where fila: "fila = (dq, u) # resto"
      by (cases fila) (auto simp: fila_pendente_def)
    from passo_limitado_inv [OF ok inv [unfolded fila]] s fila
    show ?thesis by (auto simp: medida_limitado_def)
  qed
  have init: "?P ?s0" using inv_limitado_init by blast
  have "wf {(t, s). (?P s \<and> fila_pendente s) \<and> t = ?c s}"
  proof (rule wf_subset)
    show "wf (inv_image ((less_than <*lex*> less_than) <*lex*> less_than) (medida_limitado g origem))"
      by (intro wf_inv_image wf_lex_prod wf_less_than)
    show "{(t, s). (?P s \<and> fila_pendente s) \<and> t = ?c s}
            \<subseteq> inv_image ((less_than <*lex*> less_than) <*lex*> less_than) (medida_limitado g origem)"
      using passo by (auto simp: inv_image_def)
  qed
  from wf_while_option_Some [of ?P fila_pendente ?c, OF this _ init] passo
  obtain t where t: "while_option fila_pendente ?c ?s0 = Some t" by blast
  have "?P t"
    by (rule while_option_rule [where P = ?P, OF _ t init]) (use passo in blast)
  then obtain dist fila where tf: "t = Inr (dist, fila)"
    and inv: "inv_limitado g origem B {} (dist, fila)" by blast
  from while_option_stop [OF t] tf have "fila = []" by (simp add: fila_pendente_def)
  with t tf inv show ?thesis by blast
qed

lemma existe_caminho_minimo:
  assumes "grafo_ok g" and "caminho_entre g u p v"
  shows "\<exists>q. caminho_minimo g u q v"
proof -
  from ex_has_least_nat [of "\<lambda>q. caminho_entre g u q v" p "\<lambda>q. nat (peso_caminho g q)", OF assms(2)]
  obtain q where q: "caminho_entre g u q v"
    "\<And>r. caminho_entre g u r v \<Longrightarrow> nat (peso_caminho g q) \<le> nat (peso_caminho g r)"
    by blast
  have "peso_caminho g q \<le> peso_caminho g r" if "caminho_entre g u r v" for r
    using q(2) [OF that] peso_caminho_nonneg [OF assms(1) that] peso_caminho_nonneg [OF assms(1) q(1)]
    by simp
  with q(1) show ?thesis unfolding caminho_minimo_def by blast
qed

lemma distancia_minima_limitada:
  assumes "grafo_ok g"
  shows "(\<exists>p. caminho_minimo g u p v \<and> peso_caminho g p \<le> B)
           \<longleftrightarrow> (\<exists>p. caminho_entre g u p v \<and> peso_caminho g p \<le> B)"
proof
  assume "\<exists>p. caminho_minimo g u p v \<and> peso_caminho g p \<le> B"
  then show "\<exists>p. caminho_entre g u p v \<and> peso_caminho g p \<le> B"
    unfolding caminho_minimo_def by blast
next
  assume "\<exists>p. caminho_entre g u p v \<and> peso_caminho g p \<le> B"
  then obtain p where p: "caminho_entre g u p v" "peso_caminho g p \<le> B" by blast
  from existe_caminho_minimo [OF assms p(1)] obtain q where q: "caminho_minimo g u q v" ..
  with p have "peso_caminho g q \<le> B" unfolding caminho_minimo_def by force
  with q show "\<exists>p. caminho_minimo g u p v \<and> peso_caminho g p \<le> B" by blast
qed

lemma limitado_completo:
  assumes ok: "grafo_ok g"
    and inv: "inv_limitado g origem B {} (dist, [])"
    and p: "caminho_entre g origem p v"
    and pB: "peso_caminho g p \<le> B"
  shows "\<exists>d. map_of dist v = Some d \<and> d \<le> peso_caminho g p"
  using p pB
proof (induction rule: caminho_induct)
  case refl
  then show ?case using inv_limitadoD(2) [OF inv] by simp
next
  case (snoc q y w x)
  have pq: "peso_caminho g (q @ [w]) = peso_caminho g q + x"
    by (rule caminho_entre_snoc(2) [OF snoc.hyps])
  from peso_aresta_pos(1) [OF ok snoc.hyps(2)] have "0 < x" .
  with snoc.prems pq have "peso_caminho g q \<le> B" by simp
  from snoc.IH [OF this] obtain dy where dy: "map_of dist y = Some dy" "dy \<le> peso_caminho g q"
    by blast
  from inv_limitadoD(6) [OF inv dy(1)] have "concluido_limitado g B dist y" by simp
  moreover have "dy + x \<le> B" using dy(2) snoc.prems pq by simp
  ultimately obtain d' where "map_of dist w = Some d'" "d' \<le> dy + x"
    unfolding concluido_limitado_def using dy(1) snoc.hyps(2) by blast
  with dy(2) pq show ?case by simp
qed

text \<open>
  C1. For every origin and every bound, \<^verbatim>\<open>vertices_ate_distancia\<close> returns (it neither
  loops nor raises), and the vertices it lists are exactly the vertices other than the
  origin whose shortest weighted-path distance from the origin is at most the bound: the
  vertices with a shortest path from the origin of weight at most the bound. A vertex
  that is unreachable, or reachable only beyond the bound, is just not listed. No vertex
  is listed twice.
\<close>

theorem bounded_distance:
  assumes "grafo_ok g"
  shows "\<exists>vs. vertices_ate_distancia g origem distancia_max = Some (Inr vs)
             \<and> distinct vs
             \<and> set vs = {v. v \<noteq> origem
                            \<and> (\<exists>p. caminho_minimo g origem p v \<and> peso_caminho g p \<le> distancia_max)}"
proof -
  let ?B = distancia_max
  from vertices_ate_distancia_laco [OF assms, of ?B origem]
  obtain dist where w: "while_option fila_pendente (passo_limitado g ?B) (Inr ([(origem, 0)], [(0, origem)]))
                          = Some (Inr (dist, []))"
    and inv: "inv_limitado g origem ?B {} (dist, [])" by blast
  define vs where "vs = map fst (filter (\<lambda>(v, d). v \<noteq> origem \<and> d \<le> ?B) dist)"
  have r: "vertices_ate_distancia g origem ?B = Some (Inr vs)"
    by (simp add: vertices_ate_distancia_def w vs_def)
  note i = inv_limitadoD [OF inv]
  have d: "distinct vs"
    unfolding vs_def using i(1) by (simp add: distinct_map_filter)
  have "set vs = {v. v \<noteq> origem \<and> (\<exists>p. caminho_entre g origem p v \<and> peso_caminho g p \<le> ?B)}"
  proof (intro set_eqI iffI)
    fix v assume "v \<in> set vs"
    then obtain dv where "(v, dv) \<in> set dist" "v \<noteq> origem" "dv \<le> ?B"
      unfolding vs_def by auto
    moreover from this(1) i(1) have "map_of dist v = Some dv" by simp
    ultimately show "v \<in> {v. v \<noteq> origem \<and> (\<exists>p. caminho_entre g origem p v \<and> peso_caminho g p \<le> ?B)}"
      using i(4) by blast
  next
    fix v assume "v \<in> {v. v \<noteq> origem \<and> (\<exists>p. caminho_entre g origem p v \<and> peso_caminho g p \<le> ?B)}"
    then obtain p where v: "v \<noteq> origem" and p: "caminho_entre g origem p v" "peso_caminho g p \<le> ?B"
      by blast
    from limitado_completo [OF assms inv p] obtain dv where dv: "map_of dist v = Some dv"
      "dv \<le> peso_caminho g p" by blast
    from dv(1) have "(v, dv) \<in> set dist" by (rule map_of_SomeD)
    with v dv(2) p(2) show "v \<in> set vs" unfolding vs_def by force
  qed
  then have "set vs = {v. v \<noteq> origem
                \<and> (\<exists>p. caminho_minimo g origem p v \<and> peso_caminho g p \<le> ?B)}"
    by (simp add: distancia_minima_limitada [OF assms])
  with r d show ?thesis by blast
qed

theorem bounded_distance_witness:
  "grafo_ok (inserir_arestas [(''a'', ''b''), (''a'', ''b''), (''a'', ''b''),
       (''b'', ''c''), (''b'', ''c''), (''b'', ''c''), (''b'', ''c'')] init_grafo)
   \<and> vertices_ate_distancia (inserir_arestas [(''a'', ''b''), (''a'', ''b''), (''a'', ''b''),
       (''b'', ''c''), (''b'', ''c''), (''b'', ''c''), (''b'', ''c'')] init_grafo) ''a'' 3 = Some (Inr [''b''])
   \<and> vertices_ate_distancia (inserir_arestas [(''a'', ''b''), (''a'', ''b''), (''a'', ''b''),
       (''b'', ''c''), (''b'', ''c''), (''b'', ''c''), (''b'', ''c'')] init_grafo) ''a'' 7 = Some (Inr [''b'', ''c''])
   \<and> vertices_ate_distancia (inserir_arestas [(''a'', ''b''), (''a'', ''b''), (''a'', ''b''),
       (''b'', ''c''), (''b'', ''c''), (''b'', ''c''), (''b'', ''c'')] init_grafo) ''a'' 6 = Some (Inr [''b''])
   \<and> {v. v \<noteq> ''a'' \<and> (\<exists>p. caminho_minimo (inserir_arestas [(''a'', ''b''), (''a'', ''b''), (''a'', ''b''),
       (''b'', ''c''), (''b'', ''c''), (''b'', ''c''), (''b'', ''c'')] init_grafo) ''a'' p v
         \<and> peso_caminho (inserir_arestas [(''a'', ''b''), (''a'', ''b''), (''a'', ''b''),
       (''b'', ''c''), (''b'', ''c''), (''b'', ''c''), (''b'', ''c'')] init_grafo) p \<le> 6)} = {''b''}"
proof -
  let ?g = "inserir_arestas [(''a'', ''b''), (''a'', ''b''), (''a'', ''b''),
       (''b'', ''c''), (''b'', ''c''), (''b'', ''c''), (''b'', ''c'')] init_grafo"
  have ok: "grafo_ok ?g" by (rule grafo_ok_inserir_arestas)
  have e3: "vertices_ate_distancia ?g ''a'' 3 = Some (Inr [''b''])" by code_simp
  have e7: "vertices_ate_distancia ?g ''a'' 7 = Some (Inr [''b'', ''c''])" by code_simp
  have e6: "vertices_ate_distancia ?g ''a'' 6 = Some (Inr [''b''])" by code_simp
  from bounded_distance [OF ok, of "''a''" 6] e6
  have "{v. v \<noteq> ''a'' \<and> (\<exists>p. caminho_minimo ?g ''a'' p v \<and> peso_caminho ?g p \<le> 6)} = {''b''}"
    by auto
  with ok e3 e7 e6 show ?thesis by blast
qed

section \<open>The search with paths\<close>

lemma inv_dijkstraD:
  assumes "inv_dijkstra g origem X (dist, cams, fila)"
  shows "distinct (map fst dist)"
    and "map_of dist origem = Some 0"
    and "fst ` set dist \<subseteq> insert origem (set (vertices g))"
    and "\<And>v dv. map_of dist v = Some dv \<Longrightarrow>
           \<exists>c. map_of cams v = Some c \<and> caminho_entre g origem c v \<and> peso_caminho g c = dv"
    and "\<And>dv v. (dv, v) \<in> set fila \<Longrightarrow> \<exists>d'. map_of dist v = Some d' \<and> d' \<le> dv"
    and "sorted fila"
    and "\<And>v dv. map_of dist v = Some dv \<Longrightarrow>
           v \<in> X \<or> (dv, v) \<in> set fila \<or> concluido g dist v"
proof -
  from assms have a:
    "distinct (map fst dist) \<and> map_of dist origem = Some 0
     \<and> fst ` set dist \<subseteq> insert origem (set (vertices g))
     \<and> (\<forall>v d. map_of dist v = Some d \<longrightarrow>
              (\<exists>c. map_of cams v = Some c \<and> caminho_entre g origem c v \<and> peso_caminho g c = d))
     \<and> (\<forall>(d, v) \<in> set fila. \<exists>d'. map_of dist v = Some d' \<and> d' \<le> d)
     \<and> sorted fila
     \<and> (\<forall>v d. map_of dist v = Some d \<longrightarrow>
              v \<in> X \<or> (d, v) \<in> set fila \<or> concluido g dist v)"
    unfolding inv_dijkstra_def prod.case .
  from a have a4: "\<forall>v d. map_of dist v = Some d \<longrightarrow>
              (\<exists>c. map_of cams v = Some c \<and> caminho_entre g origem c v \<and> peso_caminho g c = d)"
    by (elim conjE)
  from a have a5: "\<forall>(d, v) \<in> set fila. \<exists>d'. map_of dist v = Some d' \<and> d' \<le> d"
    by (elim conjE)
  from a have a7: "\<forall>v d. map_of dist v = Some d \<longrightarrow>
              v \<in> X \<or> (d, v) \<in> set fila \<or> concluido g dist v"
    by (elim conjE)
  from a show "distinct (map fst dist)" by (elim conjE)
  from a show "map_of dist origem = Some 0" by (elim conjE)
  from a show "fst ` set dist \<subseteq> insert origem (set (vertices g))" by (elim conjE)
  show "\<exists>c. map_of cams v = Some c \<and> caminho_entre g origem c v \<and> peso_caminho g c = dv"
    if "map_of dist v = Some dv" for v dv
    using a4 [rule_format, OF that] .
  show "\<exists>d'. map_of dist v = Some d' \<and> d' \<le> dv" if "(dv, v) \<in> set fila" for dv v
    using bspec [OF a5 that] by simp
  from a show "sorted fila" by (elim conjE)
  show "v \<in> X \<or> (dv, v) \<in> set fila \<or> concluido g dist v"
    if "map_of dist v = Some dv" for v dv
    using a7 [rule_format, OF that] .
qed

lemma inv_dijkstraI:
  assumes "distinct (map fst dist)"
    and "map_of dist origem = Some 0"
    and "fst ` set dist \<subseteq> insert origem (set (vertices g))"
    and "\<And>v dv. map_of dist v = Some dv \<Longrightarrow>
           \<exists>c. map_of cams v = Some c \<and> caminho_entre g origem c v \<and> peso_caminho g c = dv"
    and "\<And>dv v. (dv, v) \<in> set fila \<Longrightarrow> \<exists>d'. map_of dist v = Some d' \<and> d' \<le> dv"
    and "sorted fila"
    and "\<And>v dv. map_of dist v = Some dv \<Longrightarrow>
           v \<in> X \<or> (dv, v) \<in> set fila \<or> concluido g dist v"
  shows "inv_dijkstra g origem X (dist, cams, fila)"
  unfolding inv_dijkstra_def prod.case
proof (intro conjI)
  show "\<forall>v d. map_of dist v = Some d \<longrightarrow>
          (\<exists>c. map_of cams v = Some c \<and> caminho_entre g origem c v \<and> peso_caminho g c = d)"
    using assms(4) by blast
  show "\<forall>(d, v) \<in> set fila. \<exists>d'. map_of dist v = Some d' \<and> d' \<le> d"
    using assms(5) by blast
  show "\<forall>v d. map_of dist v = Some d \<longrightarrow> v \<in> X \<or> (d, v) \<in> set fila \<or> concluido g dist v"
    using assms(7) by blast
qed (rule assms)+

lemma inv_dijkstra_valores:
  assumes "grafo_ok g" and "inv_dijkstra g origem X (dist, cams, fila)"
  shows "\<forall>(k, v) \<in> set dist. 0 \<le> v"
proof (clarify)
  fix k v assume "(k, v) \<in> set dist"
  with inv_dijkstraD(1) [OF assms(2)] have "map_of dist k = Some v" by simp
  from inv_dijkstraD(4) [OF assms(2) this] obtain c where "caminho_entre g origem c k" "peso_caminho g c = v"
    by blast
  with peso_caminho_nonneg [OF assms(1)] show "0 \<le> v" by blast
qed

lemma relaxar_passo:
  assumes ok: "grafo_ok g"
    and inv: "inv_dijkstra g origem {u} (dist, cams, fila)"
    and du: "map_of dist u = Some d"
    and e: "peso_aresta g u w = Some x"
  shows "\<exists>dist' cams' fila'.
           relaxar d u (w, x) (Inr (dist, cams, fila)) = Inr (dist', cams', fila')
           \<and> inv_dijkstra g origem {u} (dist', cams', fila')
           \<and> map_of dist' u = Some d
           \<and> (\<forall>v dv. map_of dist v = Some dv \<longrightarrow> (\<exists>dv'. map_of dist' v = Some dv' \<and> dv' \<le> dv))
           \<and> (\<exists>d'. map_of dist' w = Some d' \<and> d' \<le> d + x)
           \<and> ((dist', cams', fila') = (dist, cams, fila)
               \<or> (medida_dist g origem dist', medida_dist g origem dist) \<in> less_than <*lex*> less_than)"
proof (cases "case map_of dist w of None \<Rightarrow> True | Some d' \<Rightarrow> d + x < d'")
  case False
  have r: "relaxar d u (w, x) (Inr (dist, cams, fila)) = Inr (dist, cams, fila)"
    unfolding relaxar_def Let_def prod.case sum.case by (rule if_not_P [OF False])
  have "\<exists>d'. map_of dist w = Some d' \<and> d' \<le> d + x"
    using False by (cases "map_of dist w") auto
  with r inv du show ?thesis by auto
next
  case True
  note i = inv_dijkstraD [OF inv]
  from i(4) [OF du] obtain cu where cu: "map_of cams u = Some cu"
    "caminho_entre g origem cu u" "peso_caminho g cu = d"
    by blast
  define n where "n = d + x"
  define dist' where "dist' = AList.update w n dist"
  define cams' where "cams' = AList.update w (cu @ [w]) cams"
  define fila' where "fila' = insort (n, w) fila"
  have "relaxar d u (w, x) (Inr (dist, cams, fila))
          = (case map_of cams u of
               None \<Rightarrow> Inl (KeyError u)
             | Some c \<Rightarrow> Inr (AList.update w (d + x) dist, AList.update w (c @ [w]) cams,
                               insort (d + x, w) fila))"
    unfolding relaxar_def Let_def prod.case sum.case by (rule if_P [OF True])
  then have r: "relaxar d u (w, x) (Inr (dist, cams, fila)) = Inr (dist', cams', fila')"
    by (simp add: cu(1) n_def dist'_def cams'_def fila'_def)
  from True have melhor: "case map_of dist w of None \<Rightarrow> True | Some d' \<Rightarrow> n < d'"
    unfolding n_def .
  from peso_aresta_pos [OF ok e] have xpos: "0 < x" and wV: "w \<in> set (vertices g)" by auto
  from peso_caminho_nonneg [OF ok cu(2)] cu(3) have d0: "0 \<le> d" by simp
  then have n0: "0 < n" using xpos by (simp add: n_def)
  have wu: "w \<noteq> u" using melhor du xpos by (auto simp: n_def)
  have wo: "w \<noteq> origem" using melhor i(2) n0 by auto
  have m: "map_of dist' = (map_of dist)(w \<mapsto> n)"
    by (simp add: dist'_def update_conv')
  have mc: "map_of cams' = (map_of cams)(w \<mapsto> cu @ [w])"
    by (simp add: cams'_def update_conv')
  have mono: "\<exists>dv'. map_of dist' v = Some dv' \<and> dv' \<le> dv" if "map_of dist v = Some dv" for v dv
    using that melhor by (cases "v = w") (auto simp: m)
  have c_w: "caminho_entre g origem (cu @ [w]) w" "peso_caminho g (cu @ [w]) = n"
    using caminho_entre_snoc [OF cu(2) e] cu(3) by (simp_all add: n_def)
  have b': "\<exists>c. map_of cams' v = Some c \<and> caminho_entre g origem c v \<and> peso_caminho g c = dv"
    if "map_of dist' v = Some dv" for v dv
  proof (cases "v = w")
    case True
    with that have "dv = n" by (simp add: m)
    with True c_w show ?thesis by (simp add: mc)
  next
    case False
    with that have "map_of dist v = Some dv" by (simp add: m)
    from i(4) [OF this] False show ?thesis by (simp add: mc)
  qed
  have c': "\<exists>d'. map_of dist' v = Some d' \<and> d' \<le> dv" if "(dv, v) \<in> set fila'" for dv v
  proof -
    from that have "(dv, v) = (n, w) \<or> (dv, v) \<in> set fila"
      by (simp add: fila'_def set_insort_par)
    then show ?thesis
    proof
      assume "(dv, v) = (n, w)"
      then show ?thesis by (simp add: m)
    next
      assume "(dv, v) \<in> set fila"
      from i(5) [OF this] obtain d' where "map_of dist v = Some d'" "d' \<le> dv" by blast
      with mono [OF this(1)] show ?thesis by force
    qed
  qed
  have conc: "concluido g dist' v" if "concluido g dist v" "v \<noteq> w" for v
    unfolding concluido_def
  proof (intro allI impI)
    fix dv w' x'
    assume a: "map_of dist' v = Some dv" "peso_aresta g v w' = Some x'"
    with that(2) have "map_of dist v = Some dv" by (simp add: m)
    with that(1) a obtain d'' where "map_of dist w' = Some d''" "d'' \<le> dv + x'"
      unfolding concluido_def by blast
    with mono [OF this(1)] show "\<exists>d'. map_of dist' w' = Some d' \<and> d' \<le> dv + x'" by force
  qed
  have d': "v \<in> {u} \<or> (dv, v) \<in> set fila' \<or> concluido g dist' v"
    if "map_of dist' v = Some dv" for v dv
  proof (cases "v = w")
    case True
    with that have "dv = n" by (simp add: m)
    with True show ?thesis by (simp add: fila'_def set_insort_par)
  next
    case False
    with that have "map_of dist v = Some dv" by (simp add: m)
    from i(7) [OF this] conc [OF _ False] show ?thesis
      by (auto simp: fila'_def set_insort_par)
  qed
  have "inv_dijkstra g origem {u} (dist', cams', fila')"
  proof (rule inv_dijkstraI)
    show "distinct (map fst dist')" using i(1) by (simp add: dist'_def distinct_update)
    show "map_of dist' origem = Some 0" using i(2) wo by (simp add: m)
    show "fst ` set dist' \<subseteq> insert origem (set (vertices g))"
      using i(3) wV by (auto simp: dist'_def dom_update)
    show "sorted fila'" using i(6) by (simp add: fila'_def sorted_insort)
  qed (use b' c' d' in blast)+
  moreover have "map_of dist' u = Some d" using du wu by (simp add: m)
  moreover have "\<exists>d'. map_of dist' w = Some d' \<and> d' \<le> d + x" by (simp add: m n_def)
  moreover have "(medida_dist g origem dist', medida_dist g origem dist) \<in> less_than <*lex*> less_than"
    unfolding dist'_def
    using inv_dijkstra_valores [OF ok inv] i(3) wV n0 melhor
    by (intro medida_dist_update) auto
  ultimately show ?thesis using r mono by blast
qed

lemma relaxar_concluido:
  assumes du: "map_of dist u = Some du" and "du \<le> dq"
    and conc: "concluido g dist u"
    and e: "peso_aresta g u w = Some x"
  shows "relaxar dq u (w, x) (Inr (dist, cams, fila)) = Inr (dist, cams, fila)"
proof -
  from conc du e obtain d' where d': "map_of dist w = Some d'" "d' \<le> du + x"
    unfolding concluido_def by blast
  with assms(2) have "\<not> (case map_of dist w of None \<Rightarrow> True | Some d' \<Rightarrow> dq + x < d')"
    by simp
  then show ?thesis
    unfolding relaxar_def Let_def prod.case sum.case by (rule if_not_P)
qed

lemma fold_relaxar:
  assumes ok: "grafo_ok g"
    and itens: "\<forall>(w, x) \<in> set itens. peso_aresta g u w = Some x"
    and inv: "inv_dijkstra g origem {u} (dist, cams, fila)"
    and du: "map_of dist u = Some d"
  shows "\<exists>dist' cams' fila'.
           fold (relaxar d u) itens (Inr (dist, cams, fila)) = Inr (dist', cams', fila')
           \<and> inv_dijkstra g origem {u} (dist', cams', fila')
           \<and> map_of dist' u = Some d
           \<and> (\<forall>v dv. map_of dist v = Some dv \<longrightarrow> (\<exists>dv'. map_of dist' v = Some dv' \<and> dv' \<le> dv))
           \<and> (\<forall>(w, x) \<in> set itens. \<exists>d'. map_of dist' w = Some d' \<and> d' \<le> d + x)
           \<and> ((dist', cams', fila') = (dist, cams, fila)
               \<or> (medida_dist g origem dist', medida_dist g origem dist) \<in> less_than <*lex*> less_than)"
  using itens inv du
proof (induction itens arbitrary: dist cams fila)
  case Nil
  then show ?case by simp
next
  case (Cons e itens)
  obtain w x where e: "e = (w, x)" by (cases e)
  from Cons.prems(1) e have ew: "peso_aresta g u w = Some x"
    and resto: "\<forall>(w, x) \<in> set itens. peso_aresta g u w = Some x"
    by simp_all
  from relaxar_passo [OF ok Cons.prems(2,3) ew]
  obtain dist1 cams1 fila1 where 1:
    "relaxar d u (w, x) (Inr (dist, cams, fila)) = Inr (dist1, cams1, fila1)"
    "inv_dijkstra g origem {u} (dist1, cams1, fila1)"
    "map_of dist1 u = Some d"
    "\<And>v dv. map_of dist v = Some dv \<Longrightarrow> \<exists>dv'. map_of dist1 v = Some dv' \<and> dv' \<le> dv"
    "\<exists>d'. map_of dist1 w = Some d' \<and> d' \<le> d + x"
    "(dist1, cams1, fila1) = (dist, cams, fila)
       \<or> (medida_dist g origem dist1, medida_dist g origem dist) \<in> less_than <*lex*> less_than"
    by blast
  from Cons.IH [OF resto 1(2,3)]
  obtain dist2 cams2 fila2 where 2:
    "fold (relaxar d u) itens (Inr (dist1, cams1, fila1)) = Inr (dist2, cams2, fila2)"
    "inv_dijkstra g origem {u} (dist2, cams2, fila2)"
    "map_of dist2 u = Some d"
    "\<And>v dv. map_of dist1 v = Some dv \<Longrightarrow> \<exists>dv'. map_of dist2 v = Some dv' \<and> dv' \<le> dv"
    "\<forall>(w, x) \<in> set itens. \<exists>d'. map_of dist2 w = Some d' \<and> d' \<le> d + x"
    "(dist2, cams2, fila2) = (dist1, cams1, fila1)
       \<or> (medida_dist g origem dist2, medida_dist g origem dist1) \<in> less_than <*lex*> less_than"
    by blast
  have f: "fold (relaxar d u) (e # itens) (Inr (dist, cams, fila)) = Inr (dist2, cams2, fila2)"
    by (simp add: e 1(1) 2(1))
  have mono: "\<exists>dv'. map_of dist2 v = Some dv' \<and> dv' \<le> dv" if "map_of dist v = Some dv" for v dv
  proof -
    from 1(4) [OF that] obtain d1 where "map_of dist1 v = Some d1" "d1 \<le> dv" by blast
    with 2(4) [OF this(1)] show ?thesis by force
  qed
  have este: "\<exists>d'. map_of dist2 w = Some d' \<and> d' \<le> d + x"
  proof -
    from 1(5) obtain d1 where "map_of dist1 w = Some d1" "d1 \<le> d + x" by blast
    with 2(4) [OF this(1)] show ?thesis by force
  qed
  have rel: "\<forall>(w, x) \<in> set (e # itens). \<exists>d'. map_of dist2 w = Some d' \<and> d' \<le> d + x"
    using este 2(5) by (simp add: e)
  have med: "(dist2, cams2, fila2) = (dist, cams, fila)
       \<or> (medida_dist g origem dist2, medida_dist g origem dist) \<in> less_than <*lex*> less_than"
    using 1(6) 2(6) transD [OF trans_medida] by (metis prod.inject)
  from f 2(2,3) mono rel med show ?case by blast
qed

lemma fold_relaxar_concluido:
  assumes "map_of dist u = Some du" and "du \<le> dq" and "concluido g dist u"
    and "\<forall>(w, x) \<in> set itens. peso_aresta g u w = Some x"
  shows "fold (relaxar dq u) itens (Inr (dist, cams, fila)) = Inr (dist, cams, fila)"
  using assms(4)
proof (induction itens)
  case Nil
  then show ?case by simp
next
  case (Cons e itens)
  obtain w x where e: "e = (w, x)" by (cases e)
  with Cons.prems have "peso_aresta g u w = Some x" by simp
  from relaxar_concluido [OF assms(1-3) this] Cons show ?case by (simp add: e)
qed

lemma inv_dijkstra_init:
  "inv_dijkstra g origem {} ([(origem, 0)], [(origem, [origem])], [(0, origem)])"
proof (rule inv_dijkstraI)
  show "\<exists>c. map_of [(origem, [origem])] v = Some c \<and> caminho_entre g origem c v \<and> peso_caminho g c = dv"
    if "map_of [(origem, 0)] v = Some dv" for v and dv :: int
    using that by (auto simp: caminho_entre_def split: if_splits)
  show "\<exists>d'. map_of [(origem, 0)] v = Some d' \<and> d' \<le> dv" if "(dv, v) \<in> set [(0, origem)]"
    for dv :: int and v
    using that by simp
  show "v \<in> {} \<or> (dv, v) \<in> set [(0, origem)] \<or> concluido g [(origem, 0)] v"
    if "map_of [(origem, 0)] v = Some dv" for v and dv :: int
    using that by (auto split: if_splits)
qed simp_all

lemma passo_dijkstra_inv:
  assumes ok: "grafo_ok g"
    and inv: "inv_dijkstra g origem {} (dist, cams, (dq, u) # resto)"
  shows "\<exists>dist' cams' fila'.
           passo_dijkstra g (Inr (dist, cams, (dq, u) # resto)) = Inr (dist', cams', fila')
           \<and> inv_dijkstra g origem {} (dist', cams', fila')
           \<and> ((medida_dist g origem dist', length fila'),
               (medida_dist g origem dist, length ((dq, u) # resto)))
                \<in> (less_than <*lex*> less_than) <*lex*> less_than"
proof -
  note i = inv_dijkstraD [OF inv]
  from i(5) [of dq u] obtain du where du: "map_of dist u = Some du" "du \<le> dq" by auto
  define itens where "itens = dict_get (grafo g) u []"
  have p: "passo_dijkstra g (Inr (dist, cams, (dq, u) # resto))
             = fold (relaxar dq u) itens (Inr (dist, cams, resto))"
    by (simp add: passo_dijkstra_def itens_def)
  have it: "\<forall>(w, x) \<in> set itens. peso_aresta g u w = Some x"
    unfolding itens_def using peso_aresta_itens [OF ok] by blast
  have sr: "sorted resto" using i(6) by simp
  have menor: "dq \<le> dv" if "(dv, v) \<in> set resto" for dv v
  proof -
    from i(6) that have "(dq, u) \<le> (dv, v)" by auto
    then show ?thesis by (auto simp: less_eq_prod_def)
  qed
  have inv_u: "inv_dijkstra g origem {u} (dist, cams, resto)"
  proof (rule inv_dijkstraI)
    show "\<exists>d'. map_of dist v = Some d' \<and> d' \<le> dv" if "(dv, v) \<in> set resto" for dv v
      using i(5) [of dv v] that by simp
    show "v \<in> {u} \<or> (dv, v) \<in> set resto \<or> concluido g dist v"
      if "map_of dist v = Some dv" for v dv
      using i(7) [OF that] by auto
  qed (use i(1-4) sr in blast)+
  show ?thesis
  proof (cases "du < dq")
    case True
    have "(du, u) \<notin> set ((dq, u) # resto)"
      using True menor [of du u] by auto
    with i(7) [OF du(1)] have conc: "concluido g dist u" by blast
    have f: "fold (relaxar dq u) itens (Inr (dist, cams, resto)) = Inr (dist, cams, resto)"
      by (rule fold_relaxar_concluido [OF du conc it])
    have "inv_dijkstra g origem {} (dist, cams, resto)"
    proof (rule inv_dijkstraI)
      show "v \<in> {} \<or> (dv, v) \<in> set resto \<or> concluido g dist v"
        if "map_of dist v = Some dv" for v dv
      proof (cases "v = u")
        case True
        with conc show ?thesis by simp
      next
        case False
        with inv_dijkstraD(7) [OF inv_u that] show ?thesis by simp
      qed
    qed (use inv_dijkstraD(1-6) [OF inv_u] in blast)+
    with p f show ?thesis by simp
  next
    case False
    with du have eq: "du = dq" by simp
    from fold_relaxar [OF ok it inv_u du(1) [unfolded eq]]
    obtain dist' cams' fila' where f:
      "fold (relaxar dq u) itens (Inr (dist, cams, resto)) = Inr (dist', cams', fila')"
      "inv_dijkstra g origem {u} (dist', cams', fila')"
      "map_of dist' u = Some dq"
      "\<forall>(w, x) \<in> set itens. \<exists>d'. map_of dist' w = Some d' \<and> d' \<le> dq + x"
      "(dist', cams', fila') = (dist, cams, resto)
         \<or> (medida_dist g origem dist', medida_dist g origem dist) \<in> less_than <*lex*> less_than"
      by blast
    have conc: "concluido g dist' u"
      unfolding concluido_def
    proof (intro allI impI)
      fix d w x
      assume a: "map_of dist' u = Some d" "peso_aresta g u w = Some x"
      with f(3) have "d = dq" by simp
      moreover from a(2) have "(w, x) \<in> set itens"
        unfolding itens_def using peso_aresta_itens [OF ok] by blast
      ultimately show "\<exists>d'. map_of dist' w = Some d' \<and> d' \<le> d + x"
        using f(4) by blast
    qed
    note j = inv_dijkstraD [OF f(2)]
    have "inv_dijkstra g origem {} (dist', cams', fila')"
    proof (rule inv_dijkstraI)
      show "v \<in> {} \<or> (dv, v) \<in> set fila' \<or> concluido g dist' v"
        if "map_of dist' v = Some dv" for v dv
        using j(7) [OF that] conc by auto
    qed (use j(1-6) in blast)+
    moreover have "((medida_dist g origem dist', length fila'),
               (medida_dist g origem dist, length ((dq, u) # resto)))
                \<in> (less_than <*lex*> less_than) <*lex*> less_than"
      using f(5) by auto
    ultimately show ?thesis using p f(1) by simp
  qed
qed

lemma dijkstra_laco:
  assumes ok: "grafo_ok g"
  shows "\<exists>dist cams.
           while_option fila_pendente_dijkstra (passo_dijkstra g)
               (Inr ([(origem, 0)], [(origem, [origem])], [(0, origem)]))
             = Some (Inr (dist, cams, []))
           \<and> inv_dijkstra g origem {} (dist, cams, [])"
proof -
  let ?P = "\<lambda>s. \<exists>dist cams fila. s = Inr (dist, cams, fila) \<and> inv_dijkstra g origem {} (dist, cams, fila)"
  let ?c = "passo_dijkstra g"
  let ?s0 = "Inr ([(origem, 0)], [(origem, [origem])], [(0, origem)])
               :: erro + pesos \<times> caminhos \<times> fila_prioridade"
  have passo: "?P (?c s) \<and> (medida_dijkstra g origem (?c s), medida_dijkstra g origem s)
                              \<in> (less_than <*lex*> less_than) <*lex*> less_than"
    if "?P s" "fila_pendente_dijkstra s" for s
  proof -
    from that(1) obtain dist cams fila where s: "s = Inr (dist, cams, fila)"
      and inv: "inv_dijkstra g origem {} (dist, cams, fila)" by blast
    from that(2) s obtain dq u resto where fila: "fila = (dq, u) # resto"
      by (cases fila) (auto simp: fila_pendente_dijkstra_def)
    from passo_dijkstra_inv [OF ok inv [unfolded fila]] s fila
    show ?thesis by (auto simp: medida_dijkstra_def)
  qed
  have init: "?P ?s0" using inv_dijkstra_init by blast
  have "wf {(t, s). (?P s \<and> fila_pendente_dijkstra s) \<and> t = ?c s}"
  proof (rule wf_subset)
    show "wf (inv_image ((less_than <*lex*> less_than) <*lex*> less_than) (medida_dijkstra g origem))"
      by (intro wf_inv_image wf_lex_prod wf_less_than)
    show "{(t, s). (?P s \<and> fila_pendente_dijkstra s) \<and> t = ?c s}
            \<subseteq> inv_image ((less_than <*lex*> less_than) <*lex*> less_than) (medida_dijkstra g origem)"
      using passo by (auto simp: inv_image_def)
  qed
  from wf_while_option_Some [of ?P fila_pendente_dijkstra ?c, OF this _ init] passo
  obtain t where t: "while_option fila_pendente_dijkstra ?c ?s0 = Some t" by blast
  have "?P t"
    by (rule while_option_rule [where P = ?P, OF _ t init]) (use passo in blast)
  then obtain dist cams fila where tf: "t = Inr (dist, cams, fila)"
    and inv: "inv_dijkstra g origem {} (dist, cams, fila)" by blast
  from while_option_stop [OF t] tf have "fila = []" by (simp add: fila_pendente_dijkstra_def)
  with t tf inv show ?thesis by blast
qed

lemma dijkstra_completo:
  assumes ok: "grafo_ok g"
    and inv: "inv_dijkstra g origem {} (dist, cams, [])"
    and p: "caminho_entre g origem p v"
  shows "\<exists>d. map_of dist v = Some d \<and> d \<le> peso_caminho g p"
  using p
proof (induction rule: caminho_induct)
  case refl
  then show ?case using inv_dijkstraD(2) [OF inv] by simp
next
  case (snoc q y w x)
  have pq: "peso_caminho g (q @ [w]) = peso_caminho g q + x"
    by (rule caminho_entre_snoc(2) [OF snoc.hyps])
  from snoc.IH obtain dy where dy: "map_of dist y = Some dy" "dy \<le> peso_caminho g q"
    by blast
  from inv_dijkstraD(7) [OF inv dy(1)] have "concluido g dist y" by simp
  then obtain d' where "map_of dist w = Some d'" "d' \<le> dy + x"
    unfolding concluido_def using dy(1) snoc.hyps(2) by blast
  with dy(2) pq show ?case by simp
qed

lemma dijkstra_correto:
  assumes ok: "grafo_ok g"
  shows "\<exists>distancias cams.
           dijkstra_com_caminhos g origem = Some (Inr (distancias, cams))
           \<and> distinct (map fst distancias)
           \<and> (\<forall>v d. map_of distancias v = Some d \<longrightarrow>
                 (\<exists>c. map_of cams v = Some c \<and> caminho_minimo g origem c v \<and> peso_caminho g c = d))
           \<and> (\<forall>v p. caminho_entre g origem p v \<longrightarrow> (\<exists>d. map_of distancias v = Some d))"
proof -
  from dijkstra_laco [OF ok, of origem]
  obtain dist cams where w: "while_option fila_pendente_dijkstra (passo_dijkstra g)
               (Inr ([(origem, 0)], [(origem, [origem])], [(0, origem)]))
             = Some (Inr (dist, cams, []))"
    and inv: "inv_dijkstra g origem {} (dist, cams, [])" by blast
  have r: "dijkstra_com_caminhos g origem = Some (Inr (dist, cams))"
    by (simp add: dijkstra_com_caminhos_def w)
  note i = inv_dijkstraD [OF inv]
  have min: "\<exists>c. map_of cams v = Some c \<and> caminho_minimo g origem c v \<and> peso_caminho g c = d"
    if "map_of dist v = Some d" for v d
  proof -
    from i(4) [OF that] obtain c where c: "map_of cams v = Some c" "caminho_entre g origem c v"
      "peso_caminho g c = d" by blast
    have "peso_caminho g c \<le> peso_caminho g q" if "caminho_entre g origem q v" for q
      using dijkstra_completo [OF ok inv that] \<open>map_of dist v = Some d\<close> c(3) by simp
    with c show ?thesis unfolding caminho_minimo_def by blast
  qed
  have alc: "\<exists>d. map_of dist v = Some d" if "caminho_entre g origem p v" for v p
    using dijkstra_completo [OF ok inv that] by blast
  from r i(1) min alc show ?thesis by blast
qed

text \<open>
  C2. For every origin, \<^verbatim>\<open>_dijkstra_com_caminhos\<close> returns (it neither loops nor
  raises), and for every vertex \<open>v\<close> reachable from the origin it records a distance
  and a path: the path starts at the origin, ends at \<open>v\<close>, follows edges of the graph,
  its total weight is the recorded distance, and no path from the origin to \<open>v\<close> weighs
  less, so the recorded distance is the length of a shortest path.
\<close>

theorem dijkstra_shortest_paths:
  assumes "grafo_ok g"
  shows "\<exists>distancias cams.
           dijkstra_com_caminhos g origem = Some (Inr (distancias, cams))
           \<and> (\<forall>v. (\<exists>p. caminho_entre g origem p v) \<longrightarrow>
                 (\<exists>d c. map_of distancias v = Some d \<and> map_of cams v = Some c
                        \<and> caminho_entre g origem c v
                        \<and> peso_caminho g c = d
                        \<and> (\<forall>q. caminho_entre g origem q v \<longrightarrow> d \<le> peso_caminho g q)))"
proof -
  from dijkstra_correto [OF assms, of origem]
  obtain distancias cams where r: "dijkstra_com_caminhos g origem = Some (Inr (distancias, cams))"
    and min: "\<And>v d. map_of distancias v = Some d \<Longrightarrow>
                 \<exists>c. map_of cams v = Some c \<and> caminho_minimo g origem c v \<and> peso_caminho g c = d"
    and alc: "\<And>v p. caminho_entre g origem p v \<Longrightarrow> \<exists>d. map_of distancias v = Some d"
    by blast
  have "\<exists>d c. map_of distancias v = Some d \<and> map_of cams v = Some c
                        \<and> caminho_entre g origem c v
                        \<and> peso_caminho g c = d
                        \<and> (\<forall>q. caminho_entre g origem q v \<longrightarrow> d \<le> peso_caminho g q)"
    if "\<exists>p. caminho_entre g origem p v" for v
  proof -
    from that alc obtain d where d: "map_of distancias v = Some d" by blast
    from min [OF d] obtain c where "map_of cams v = Some c" "caminho_minimo g origem c v"
      "peso_caminho g c = d" by blast
    with d show ?thesis unfolding caminho_minimo_def by blast
  qed
  with r show ?thesis by blast
qed

theorem dijkstra_shortest_paths_witness:
  "grafo_ok (inserir_arestas [(''a'', ''b''), (''a'', ''b''), (''a'', ''b''), (''a'', ''c''), (''c'', ''b'')] init_grafo)
   \<and> dijkstra_com_caminhos (inserir_arestas [(''a'', ''b''), (''a'', ''b''), (''a'', ''b''), (''a'', ''c''), (''c'', ''b'')] init_grafo) ''a''
       = Some (Inr ([(''a'', 0), (''b'', 2), (''c'', 1)],
                    [(''a'', [''a'']), (''b'', [''a'', ''c'', ''b'']), (''c'', [''a'', ''c''])]))
   \<and> \<not> (\<exists>q. caminho_entre (inserir_arestas [(''a'', ''b''), (''a'', ''b''), (''a'', ''b''), (''a'', ''c''), (''c'', ''b'')] init_grafo) ''a'' q ''b''
          \<and> peso_caminho (inserir_arestas [(''a'', ''b''), (''a'', ''b''), (''a'', ''b''), (''a'', ''c''), (''c'', ''b'')] init_grafo) q < 2)"
proof -
  let ?g = "inserir_arestas [(''a'', ''b''), (''a'', ''b''), (''a'', ''b''), (''a'', ''c''), (''c'', ''b'')] init_grafo"
  have ok: "grafo_ok ?g" by (rule grafo_ok_inserir_arestas)
  have e: "dijkstra_com_caminhos ?g ''a''
       = Some (Inr ([(''a'', 0), (''b'', 2), (''c'', 1)],
                    [(''a'', [''a'']), (''b'', [''a'', ''c'', ''b'']), (''c'', [''a'', ''c''])]))"
    by code_simp
  have p: "caminho_entre ?g ''a'' [''a'', ''b''] ''b''"
    by code_simp
  from dijkstra_shortest_paths [OF ok, of "''a''"] e p
  have "\<forall>q. caminho_entre ?g ''a'' q ''b'' \<longrightarrow> 2 \<le> peso_caminho ?g q"
    by fastforce
  then have "\<not> (\<exists>q. caminho_entre ?g ''a'' q ''b'' \<and> peso_caminho ?g q < 2)"
    by fastforce
  with ok e show ?thesis by blast
qed

section \<open>The diameter\<close>

lemma atualizar_maior_correto:
  assumes "\<forall>(v, d) \<in> set dist. \<exists>c. map_of cams v = Some c"
  shows "\<exists>m' c'. atualizar_maior cams dist (m, c) = Inr (m', c')
            \<and> m \<le> m'
            \<and> (\<forall>(v, d) \<in> set dist. d \<le> m')
            \<and> ((m', c') = (m, c) \<or> (\<exists>(v, d) \<in> set dist. d = m' \<and> map_of cams v = Some c'))"
  using assms
proof (induction dist arbitrary: m c)
  case Nil
  then show ?case by simp
next
  case (Cons e dist)
  obtain v d where e: "e = (v, d)" by (cases e)
  from Cons.prems e obtain cv where cv: "map_of cams v = Some cv" by auto
  from Cons.prems have resto: "\<forall>(v, d) \<in> set dist. \<exists>c. map_of cams v = Some c" by simp
  show ?case
  proof (cases "d > m")
    case True
    from Cons.IH [OF resto, of d cv] obtain m' c' where r:
      "atualizar_maior cams dist (d, cv) = Inr (m', c')" "d \<le> m'"
      "\<forall>(v, d) \<in> set dist. d \<le> m'"
      "(m', c') = (d, cv) \<or> (\<exists>(v, d) \<in> set dist. d = m' \<and> map_of cams v = Some c')"
      by blast
    have "atualizar_maior cams (e # dist) (m, c) = Inr (m', c')"
      using True by (simp add: e cv r(1))
    moreover have "m \<le> m'" using True r(2) by simp
    moreover have "\<forall>(v, d) \<in> set (e # dist). d \<le> m'" using r(2,3) by (simp add: e)
    moreover have "\<exists>(v, d) \<in> set (e # dist). d = m' \<and> map_of cams v = Some c'"
      using r(4) cv by (auto simp: e)
    ultimately show ?thesis by blast
  next
    case False
    from Cons.IH [OF resto, of m c] obtain m' c' where r:
      "atualizar_maior cams dist (m, c) = Inr (m', c')" "m \<le> m'"
      "\<forall>(v, d) \<in> set dist. d \<le> m'"
      "(m', c') = (m, c) \<or> (\<exists>(v, d) \<in> set dist. d = m' \<and> map_of cams v = Some c')"
      by blast
    have "atualizar_maior cams (e # dist) (m, c) = Inr (m', c')"
      using False by (simp add: e r(1))
    moreover have "\<forall>(v, d) \<in> set (e # dist). d \<le> m'" using False r(2,3) by (simp add: e)
    moreover have "(m', c') = (m, c) \<or> (\<exists>(v, d) \<in> set (e # dist). d = m' \<and> map_of cams v = Some c')"
      using r(4) by auto
    ultimately show ?thesis using r(2) by blast
  qed
qed

lemma diametro_desde_correto:
  assumes ok: "grafo_ok g"
  shows "\<exists>m' c'. diametro_desde g vs (m, c) = Some (Inr (m', c'))
            \<and> m \<le> m'
            \<and> (\<forall>u \<in> set vs. \<forall>v q. caminho_minimo g u q v \<longrightarrow> peso_caminho g q \<le> m')
            \<and> ((m', c') = (m, c)
                \<or> (\<exists>u \<in> set vs. \<exists>v. caminho_minimo g u c' v \<and> peso_caminho g c' = m'))"
proof (induction vs arbitrary: m c)
  case Nil
  then show ?case by simp
next
  case (Cons origem vs)
  from dijkstra_correto [OF ok, of origem]
  obtain dist cams where dj: "dijkstra_com_caminhos g origem = Some (Inr (dist, cams))"
    and dd: "distinct (map fst dist)"
    and min: "\<And>v d. map_of dist v = Some d \<Longrightarrow>
                 \<exists>c. map_of cams v = Some c \<and> caminho_minimo g origem c v \<and> peso_caminho g c = d"
    and alc: "\<And>v p. caminho_entre g origem p v \<Longrightarrow> \<exists>d. map_of dist v = Some d"
    by blast
  have keys: "\<forall>(v, d) \<in> set dist. \<exists>c. map_of cams v = Some c"
  proof (clarify)
    fix v d assume "(v, d) \<in> set dist"
    with dd have "map_of dist v = Some d" by simp
    from min [OF this] show "\<exists>c. map_of cams v = Some c" by blast
  qed
  from atualizar_maior_correto [OF keys, of m c] obtain m1 c1 where a:
    "atualizar_maior cams dist (m, c) = Inr (m1, c1)" "m \<le> m1"
    "\<forall>(v, d) \<in> set dist. d \<le> m1"
    "(m1, c1) = (m, c) \<or> (\<exists>(v, d) \<in> set dist. d = m1 \<and> map_of cams v = Some c1)"
    by blast
  from Cons.IH [of m1 c1] obtain m' c' where r:
    "diametro_desde g vs (m1, c1) = Some (Inr (m', c'))" "m1 \<le> m'"
    "\<forall>u \<in> set vs. \<forall>v q. caminho_minimo g u q v \<longrightarrow> peso_caminho g q \<le> m'"
    "(m', c') = (m1, c1) \<or> (\<exists>u \<in> set vs. \<exists>v. caminho_minimo g u c' v \<and> peso_caminho g c' = m')"
    by blast
  have res: "diametro_desde g (origem # vs) (m, c) = Some (Inr (m', c'))"
    by (simp add: dj a(1) r(1))
  have este: "peso_caminho g q \<le> m'" if "caminho_minimo g origem q v" for v q
  proof -
    from that have q: "caminho_entre g origem q v" by (simp add: caminho_minimo_def)
    from alc [OF q] obtain d where d: "map_of dist v = Some d" by blast
    from min [OF d] obtain cv where cv: "caminho_minimo g origem cv v" "peso_caminho g cv = d"
      by blast
    from that cv(1) have "peso_caminho g q \<le> peso_caminho g cv"
      unfolding caminho_minimo_def by blast
    moreover from d have "(v, d) \<in> set dist" by (rule map_of_SomeD)
    with a(3) have "d \<le> m1" by auto
    ultimately show ?thesis using cv(2) r(2) by simp
  qed
  have m1_alc: "(m1, c1) = (m, c) \<or> (\<exists>v. caminho_minimo g origem c1 v \<and> peso_caminho g c1 = m1)"
  proof -
    from a(4) show ?thesis
    proof
      assume "(m1, c1) = (m, c)"
      then show ?thesis ..
    next
      assume "\<exists>(v, d) \<in> set dist. d = m1 \<and> map_of cams v = Some c1"
      then obtain v where v: "(v, m1) \<in> set dist" "map_of cams v = Some c1" by auto
      with dd have "map_of dist v = Some m1" by simp
      from min [OF this] v(2) show ?thesis by auto
    qed
  qed
  have fim: "(m', c') = (m, c)
                \<or> (\<exists>u \<in> set (origem # vs). \<exists>v. caminho_minimo g u c' v \<and> peso_caminho g c' = m')"
    using r(4) m1_alc by auto
  have "\<forall>u \<in> set (origem # vs). \<forall>v q. caminho_minimo g u q v \<longrightarrow> peso_caminho g q \<le> m'"
    using este r(3) by auto
  moreover have "m \<le> m'" using a(2) r(2) by simp
  ultimately show ?case using res fim by blast
qed

text \<open>
  C5, as the code has it. \<^verbatim>\<open>calcular_diametro\<close> returns (it neither loops nor raises),
  and the distance it returns is at least the shortest-path distance of every ordered
  pair of vertices joined by a path; the path it returns is empty with distance 0, or is
  a shortest path between two vertices whose weight is the returned distance. Nothing
  relates it to the largest edge weight: a lighter detour may join the ends of the
  heaviest edge.
\<close>

theorem diameter_bounds:
  assumes "grafo_ok g"
  shows "\<exists>d p. calcular_diametro g = Some (Inr (d, p))
           \<and> (\<forall>u \<in> set (vertices g). \<forall>v q. caminho_minimo g u q v \<longrightarrow> peso_caminho g q \<le> d)
           \<and> ((d = 0 \<and> p = [])
               \<or> (\<exists>u \<in> set (vertices g). \<exists>v. caminho_minimo g u p v \<and> peso_caminho g p = d))"
proof -
  from diametro_desde_correto [OF assms, of "vertices g" 0 "[]"]
  show ?thesis unfolding calcular_diametro_def by auto
qed

theorem diameter_bounds_witness:
  "grafo_ok (inserir_arestas [(''a'', ''b''), (''b'', ''c''), (''c'', ''a'')] init_grafo)
   \<and> calcular_diametro (inserir_arestas [(''a'', ''b''), (''b'', ''c''), (''c'', ''a'')] init_grafo)
       = Some (Inr (2, [''a'', ''b'', ''c'']))
   \<and> \<not> (\<exists>u v q. u \<in> set (vertices (inserir_arestas [(''a'', ''b''), (''b'', ''c''), (''c'', ''a'')] init_grafo))
        \<and> caminho_minimo (inserir_arestas [(''a'', ''b''), (''b'', ''c''), (''c'', ''a'')] init_grafo) u q v
        \<and> 2 < peso_caminho (inserir_arestas [(''a'', ''b''), (''b'', ''c''), (''c'', ''a'')] init_grafo) q)"
proof -
  let ?g = "inserir_arestas [(''a'', ''b''), (''b'', ''c''), (''c'', ''a'')] init_grafo"
  have ok: "grafo_ok ?g" by (rule grafo_ok_inserir_arestas)
  have e: "calcular_diametro ?g = Some (Inr (2, [''a'', ''b'', ''c'']))"
    by code_simp
  from diameter_bounds [OF ok] e
  have "\<forall>u \<in> set (vertices ?g). \<forall>v q. caminho_minimo ?g u q v \<longrightarrow> peso_caminho ?g q \<le> 2"
    by simp
  then have "\<not> (\<exists>u v q. u \<in> set (vertices ?g) \<and> caminho_minimo ?g u q v \<and> 2 < peso_caminho ?g q)"
    by fastforce
  with ok e show ?thesis by blast
qed

text \<open>
  C5 as stated fails: when \<open>a\<close> sends five messages to \<open>b\<close>, one to \<open>c\<close>, and \<open>c\<close> one to
  \<open>b\<close>, the heaviest edge weighs 5 and the diameter returned is 2.
\<close>

theorem diameter_edge_weight_counterexample:
  "peso_aresta (inserir_arestas [(''a'', ''b''), (''a'', ''b''), (''a'', ''b''), (''a'', ''b''),
       (''a'', ''b''), (''a'', ''c''), (''c'', ''b'')] init_grafo) ''a'' ''b'' = Some 5
   \<and> calcular_diametro (inserir_arestas [(''a'', ''b''), (''a'', ''b''), (''a'', ''b''), (''a'', ''b''),
       (''a'', ''b''), (''a'', ''c''), (''c'', ''b'')] init_grafo) = Some (Inr (2, [''a'', ''c'', ''b'']))"
  by code_simp

end
